theory Spec2Isabelle
  imports Main
begin

section \<open>The data model\<close>

text \<open>
  The functions of \<open>src/dist/Objects.js\<close> work on JavaScript values. A value is
  \<open>undefined\<close>, \<open>null\<close>, a boolean, a number, a string, a plain object or an array.
  Numbers are modelled as integers (the integer-valued doubles below \<open>2^53\<close>); strings are
  ASCII. An array is an object as well: both carry their own enumerable properties as a
  list of (key, value) pairs in the order \<open>Object.keys\<close> reports them, that is the array
  indices in ascending order first and the other keys in insertion order after them. The
  array \<open>[x, y]\<close> is \<open>Arr [(''0'', x), (''1'', y)]\<close>; an array whose list misses an index has a
  hole there, and an array may carry named properties next to its elements (the
  unflattener can produce both).

  The model sees the own enumerable properties of a value only: what a value inherits from
  its prototype (\<open>constructor\<close>, \<open>toString\<close>, \<open>__proto__\<close>) and the non-enumerable \<open>length\<close>
  of arrays and strings are not data of the tree, and keys of these names are outside the
  model. A value of type \<open>jv\<close> is a tree: no container is reachable twice. The serializer,
  whose subject is the identity of containers, has a heap model of its own.
\<close>

datatype js_error = TypeError

datatype jv =
    Undefined
  | Null
  | Bool bool
  | Num int
  | Str string
  | Obj "(string \<times> jv) list"
  | Arr "(string \<times> jv) list"

text \<open>\<open>Boolean(v)\<close>: the falsy values are \<open>undefined\<close>, \<open>null\<close>, \<open>false\<close>, \<open>0\<close> and \<open>''\<close>.\<close>

fun truthy :: "jv \<Rightarrow> bool" where
  "truthy Undefined = False"
| "truthy Null = False"
| "truthy (Bool b) = b"
| "truthy (Num n) = (n \<noteq> 0)"
| "truthy (Str s) = (s \<noteq> [])"
| "truthy (Obj ps) = True"
| "truthy (Arr ps) = True"

text \<open>The \<open>typeof\<close> operator (\<open>typeof null\<close> is \<open>'object'\<close>), \<open>Array.isArray\<close>, and the kinds.\<close>

fun typeof :: "jv \<Rightarrow> string" where
  "typeof Undefined = ''undefined''"
| "typeof Null = ''object''"
| "typeof (Bool b) = ''boolean''"
| "typeof (Num n) = ''number''"
| "typeof (Str s) = ''string''"
| "typeof (Obj ps) = ''object''"
| "typeof (Arr ps) = ''object''"

fun isArray :: "jv \<Rightarrow> bool" where
  "isArray (Arr ps) = True"
| "isArray v = False"

fun is_container :: "jv \<Rightarrow> bool" where
  "is_container (Obj ps) = True"
| "is_container (Arr ps) = True"
| "is_container v = False"

fun is_mapping :: "jv \<Rightarrow> bool" where
  "is_mapping (Obj ps) = True"
| "is_mapping v = False"

subsection \<open>Property keys\<close>

definition is_digit :: "char \<Rightarrow> bool" where
  "is_digit c = (48 \<le> (of_char c :: nat) \<and> (of_char c :: nat) \<le> 57)"

definition digit_val :: "char \<Rightarrow> nat" where
  "digit_val c = of_char c - 48"

definition digit_char :: "nat \<Rightarrow> char" where
  "digit_char d = ''0123456789'' ! d"

text \<open>\<open>String(i)\<close> for an index \<open>i\<close>, and the value of a string of digits.\<close>

fun string_of_nat :: "nat \<Rightarrow> string" where
  "string_of_nat n =
     (if n < 10 then [digit_char n] else string_of_nat (n div 10) @ [digit_char (n mod 10)])"

declare string_of_nat.simps [simp del]

definition nat_of_digits :: "string \<Rightarrow> nat" where
  "nat_of_digits s = foldl (\<lambda>a c. 10 * a + digit_val c) 0 s"

text \<open>
  An array index is a canonical numeric string below \<open>2^32 - 1\<close>: digits only, no leading
  zero except \<open>''0''\<close> itself. Such keys are the elements of an array, and in every object
  they are enumerated first, in ascending order.
\<close>

definition is_index :: "string \<Rightarrow> bool" where
  "is_index s =
     (s \<noteq> [] \<and> list_all is_digit s \<and> (hd s \<noteq> CHR ''0'' \<or> s = ''0'')
      \<and> nat_of_digits s < 4294967295)"

text \<open>
  \<open>o[k] = v\<close> on a property list: an existing key keeps its place, a new array index
  goes among the indices in ascending order, any other new key goes last.
\<close>

fun has_key :: "string \<Rightarrow> (string \<times> 'v) list \<Rightarrow> bool" where
  "has_key k [] = False"
| "has_key k ((k', v') # ps) = (k = k' \<or> has_key k ps)"

fun replace_prop :: "string \<Rightarrow> 'v \<Rightarrow> (string \<times> 'v) list \<Rightarrow> (string \<times> 'v) list" where
  "replace_prop k v [] = []"
| "replace_prop k v ((k', v') # ps) =
     (if k = k' then (k, v) # ps else (k', v') # replace_prop k v ps)"

fun insert_index :: "string \<Rightarrow> 'v \<Rightarrow> (string \<times> 'v) list \<Rightarrow> (string \<times> 'v) list" where
  "insert_index k v [] = [(k, v)]"
| "insert_index k v ((k', v') # ps) =
     (if is_index k' \<and> nat_of_digits k' < nat_of_digits k
      then (k', v') # insert_index k v ps
      else (k, v) # (k', v') # ps)"

definition set_prop :: "(string \<times> 'v) list \<Rightarrow> string \<Rightarrow> 'v \<Rightarrow> (string \<times> 'v) list" where
  "set_prop ps k v =
     (if has_key k ps then replace_prop k v ps
      else if is_index k then insert_index k v ps
      else ps @ [(k, v)])"

fun lookup :: "string \<Rightarrow> (string \<times> 'v) list \<Rightarrow> 'v option" where
  "lookup k [] = None"
| "lookup k ((k', v') # ps) = (if k = k' then Some v' else lookup k ps)"

text \<open>The own enumerable properties of a string are its characters, by index.\<close>

definition str_entries :: "string \<Rightarrow> (string \<times> jv) list" where
  "str_entries s = map (\<lambda>i. (string_of_nat i, Str [s ! i])) [0..<length s]"

text \<open>
  \<open>x[k]\<close>: reading a property of \<open>undefined\<close> or \<open>null\<close> throws; a missing property is
  \<open>undefined\<close>.
\<close>

fun get_prop :: "jv \<Rightarrow> string \<Rightarrow> js_error + jv" where
  "get_prop Undefined k = Inl TypeError"
| "get_prop Null k = Inl TypeError"
| "get_prop (Bool b) k = Inr Undefined"
| "get_prop (Num n) k = Inr Undefined"
| "get_prop (Str s) k =
     Inr (case lookup k (str_entries s) of None \<Rightarrow> Undefined | Some c \<Rightarrow> c)"
| "get_prop (Obj ps) k = Inr (case lookup k ps of None \<Rightarrow> Undefined | Some v \<Rightarrow> v)"
| "get_prop (Arr ps) k = Inr (case lookup k ps of None \<Rightarrow> Undefined | Some v \<Rightarrow> v)"

text \<open>
  \<open>x[k] = v\<close> in strict mode (the file starts with \<open>"use strict"\<close>): creating a property
  on a primitive throws, as does any write to \<open>undefined\<close> or \<open>null\<close>.
\<close>

fun assign_prop :: "jv \<Rightarrow> string \<Rightarrow> jv \<Rightarrow> js_error + jv" where
  "assign_prop (Obj ps) k v = Inr (Obj (set_prop ps k v))"
| "assign_prop (Arr ps) k v = Inr (Arr (set_prop ps k v))"
| "assign_prop x k v = Inl TypeError"

text \<open>
  \<open>Object.keys(x)\<close>, each key with its value \<open>x[key]\<close>: it throws on \<open>undefined\<close> and
  \<open>null\<close>, gives no key for a boolean or a number and the indices for a string.
\<close>

fun own_entries :: "jv \<Rightarrow> js_error + (string \<times> jv) list" where
  "own_entries Undefined = Inl TypeError"
| "own_entries Null = Inl TypeError"
| "own_entries (Bool b) = Inr []"
| "own_entries (Num n) = Inr []"
| "own_entries (Str s) = Inr (str_entries s)"
| "own_entries (Obj ps) = Inr ps"
| "own_entries (Arr ps) = Inr ps"

section \<open>The operations\<close>

subsection \<open>The selector resolver \<open>get\<close>\<close>



fun split_on :: "char \<Rightarrow> string \<Rightarrow> string list" where
  "split_on d [] = [[]]"
| "split_on d (c # cs) =
     (if c = d then [] # split_on d cs
      else (case split_on d cs of [] \<Rightarrow> [[c]] | w # ws \<Rightarrow> (c # w) # ws))"





subsection \<open>The falsy pruner \<open>compactObject\<close>\<close>

text \<open>
  \<^verbatim>\<open>
  const compactObject = val => {
      const data = Array.isArray(val) ? val.filter(Boolean) : val;
      return Object.keys(data).reduce((acc, key) => {
          const value = data[key];
          if (Boolean(value))
              acc[key] = typeof value === 'object' ? compactObject(value) : value;
          return acc;
      }, Array.isArray(val) ? [] : {});
  };
  \<close>
  \<open>val.filter(Boolean)\<close> visits the elements of the array in index order, skips the holes
  and the named properties, and builds a new array of the truthy elements, indexed from 0.
  \<open>compact_reduce\<close> is the \<open>reduce\<close> over the keys of \<open>data\<close> with the accumulator \<open>acc\<close>.
\<close>

definition array_elems :: "(string \<times> 'v) list \<Rightarrow> 'v list" where
  "array_elems ps = map snd (filter (\<lambda>p. is_index (fst p)) ps)"

definition array_of :: "'v list \<Rightarrow> (string \<times> 'v) list" where
  "array_of vs = zip (map string_of_nat [0..<length vs]) vs"

definition filter_Boolean :: "(string \<times> jv) list \<Rightarrow> (string \<times> jv) list" where
  "filter_Boolean ps = array_of (filter truthy (array_elems ps))"

text \<open>
  The pruner calls itself on the members whose \<open>typeof\<close> is \<open>'object'\<close>; \<open>weight\<close> counts
  them, for the termination proof.
\<close>

fun weight :: "(string \<times> jv) list \<Rightarrow> nat" where
  "weight [] = 0"
| "weight ((k, v) # ps) = (if typeof v = ''object'' then 2 * size v + 2 else 0) + weight ps"

lemma weight_le: "weight ps \<le> 2 * size_list (size_prod (\<lambda>x. 0) size) ps"
  by (induction ps) auto

lemma weight_str_entries: "weight (map (\<lambda>i. (f i, Str (g i))) is) = 0"
  by (induction "is") auto

lemma weight_zip_keys: "length ks = length vs \<Longrightarrow> weight (zip ks vs) = weight (map (Pair []) vs)"
  by (induction ks vs rule: list_induct2) auto

lemma weight_filter_vals: "weight (map (Pair []) (filter P vs)) \<le> weight (map (Pair []) vs)"
  by (induction vs) auto

lemma weight_array_elems: "weight (map (Pair []) (array_elems ps)) \<le> weight ps"
  by (induction ps) (auto simp: array_elems_def)

lemma weight_filter_Boolean: "weight (filter_Boolean ps) \<le> weight ps"
  unfolding filter_Boolean_def array_of_def
  using weight_filter_vals [of truthy "array_elems ps"] weight_array_elems [of ps]
  by (simp add: weight_zip_keys)

function compactObject :: "jv \<Rightarrow> js_error + jv"
  and compact_reduce :: "(string \<times> jv) list \<Rightarrow> jv \<Rightarrow> js_error + jv"
where
  "compactObject Undefined = Inl TypeError"
| "compactObject Null = Inl TypeError"
| "compactObject (Bool b) = Inr (Obj [])"
| "compactObject (Num n) = Inr (Obj [])"
| "compactObject (Str s) = compact_reduce (str_entries s) (Obj [])"
| "compactObject (Obj ps) = compact_reduce ps (Obj [])"
| "compactObject (Arr ps) = compact_reduce (filter_Boolean ps) (Arr [])"
| "compact_reduce [] acc = Inr acc"
| "compact_reduce ((key, v) # rest) acc =
     (if truthy v
      then (case (if typeof v = ''object'' then compactObject v else Inr v) of
              Inl e \<Rightarrow> Inl e
            | Inr x \<Rightarrow> (case assign_prop acc key x of
                         Inl e \<Rightarrow> Inl e
                       | Inr acc' \<Rightarrow> compact_reduce rest acc'))
      else compact_reduce rest acc)"
  by pat_completeness auto

termination
  apply (relation "(\<lambda>x. case x of Inl v \<Rightarrow> 2 * size v + 1 | Inr (kvs, acc) \<Rightarrow> weight kvs)
     <*mlex*> measure (\<lambda>x. case x of Inl v \<Rightarrow> 0 | Inr (kvs, acc) \<Rightarrow> length kvs)")
  apply (auto simp: mlex_prod_def str_entries_def weight_str_entries)
  subgoal for ps using weight_le [of ps] by simp
  subgoal for ps using weight_le [of ps] weight_filter_Boolean [of ps] by simp
  done

subsection \<open>The path unflattener \<open>unflattenObject\<close>\<close>

text \<open>
  \<^verbatim>\<open>
  const unflattenObject = obj => Object.keys(obj).reduce((res, k) => {
      k.split('.').reduce((acc, e, i, keys) => acc[e] ||
          (acc[e] = isNaN(Number(keys[i + 1]))
              ? keys.length - 1 === i
                  ? obj[k]
                  : {}
              : []), res);
      return res;
  }, {});
  \<close>
  \<open>Number(s)\<close> of a string reads a numeric literal: white space around it is dropped, the
  empty string is 0, and a signed decimal literal (with an optional fraction and
  exponent, or \<open>Infinity\<close>) or an unsigned hexadecimal, octal or binary literal is a number;
  every other string is \<open>NaN\<close>.
\<close>

definition is_ws :: "char \<Rightarrow> bool" where
  "is_ws c = (c \<in> set [CHR 0x09, CHR 0x0A, CHR 0x0B, CHR 0x0C, CHR 0x0D, CHR '' ''])"

definition trim :: "string \<Rightarrow> string" where
  "trim s = rev (dropWhile is_ws (rev (dropWhile is_ws s)))"

definition digits1 :: "string \<Rightarrow> bool" where
  "digits1 s = (s \<noteq> [] \<and> list_all is_digit s)"

definition is_exponent_part :: "string \<Rightarrow> bool" where
  "is_exponent_part s =
     (case s of
        [] \<Rightarrow> False
      | c # r \<Rightarrow> (c = CHR ''e'' \<or> c = CHR ''E'') \<and>
          (case r of
             [] \<Rightarrow> False
           | d # r' \<Rightarrow> if d = CHR ''+'' \<or> d = CHR ''-'' then digits1 r' else digits1 r))"

definition is_unsigned_decimal :: "string \<Rightarrow> bool" where
  "is_unsigned_decimal s =
     (s = ''Infinity'' \<or>
      (let ip = takeWhile is_digit s; r = dropWhile is_digit s in
       case r of
         [] \<Rightarrow> ip \<noteq> []
       | c # r' \<Rightarrow>
           if c = CHR ''.''
           then (let fp = takeWhile is_digit r'; r'' = dropWhile is_digit r' in
                 (ip \<noteq> [] \<or> fp \<noteq> []) \<and> (r'' = [] \<or> is_exponent_part r''))
           else ip \<noteq> [] \<and> is_exponent_part r))"

definition is_signed_decimal :: "string \<Rightarrow> bool" where
  "is_signed_decimal s =
     (case s of
        [] \<Rightarrow> False
      | c # r \<Rightarrow> if c = CHR ''+'' \<or> c = CHR ''-'' then is_unsigned_decimal r
                else is_unsigned_decimal s)"

definition is_radix_literal :: "string \<Rightarrow> bool" where
  "is_radix_literal s =
     (case s of
        z # x # ds \<Rightarrow> z = CHR ''0'' \<and> ds \<noteq> [] \<and>
          (if x = CHR ''x'' \<or> x = CHR ''X'' then list_all (\<lambda>c. c \<in> set ''0123456789abcdefABCDEF'') ds
           else if x = CHR ''o'' \<or> x = CHR ''O'' then list_all (\<lambda>c. c \<in> set ''01234567'') ds
           else if x = CHR ''b'' \<or> x = CHR ''B'' then list_all (\<lambda>c. c \<in> set ''01'') ds
           else False)
      | _ \<Rightarrow> False)"

text \<open>
  \<open>isNaN(Number(keys[i + 1]))\<close>, where \<open>keys[i + 1]\<close> is \<open>undefined\<close> (here \<open>None\<close>) behind
  the last segment, and \<open>Number(undefined)\<close> is \<open>NaN\<close>.
\<close>

definition isNaN_Number :: "string option \<Rightarrow> bool" where
  "isNaN_Number x =
     (case x of
        None \<Rightarrow> True
      | Some s \<Rightarrow> \<not> (trim s = [] \<or> is_signed_decimal (trim s) \<or> is_radix_literal (trim s)))"

definition next_key :: "string list \<Rightarrow> string option" where
  "next_key rest = (case rest of [] \<Rightarrow> None | n # ns \<Rightarrow> Some n)"

text \<open>
  The value the inner callback assigns to \<open>acc[e]\<close>, from the segments \<open>rest\<close> that follow
  \<open>e\<close>: the leaf \<open>obj[k]\<close> at the last segment, a new array when the next segment reads
  as a number, a new object otherwise.
\<close>

definition new_member :: "string list \<Rightarrow> jv \<Rightarrow> jv" where
  "new_member rest leaf =
     (if isNaN_Number (next_key rest) then (if rest = [] then leaf else Obj []) else Arr [])"

text \<open>
  \<open>unflatten_path acc keys leaf\<close> is the inner \<open>reduce\<close> from the accumulator \<open>acc\<close> on:
  it returns \<open>acc\<close> as the writes below it have left it (in the source \<open>acc[e]\<close> is shared
  with \<open>acc\<close>, so a write into it is seen through \<open>acc\<close>). A truthy \<open>acc[e]\<close> is the next
  accumulator as it is; otherwise the new member is assigned and becomes the next
  accumulator. \<open>unflatten_keys\<close> is the outer \<open>reduce\<close> over \<open>Object.keys(obj)\<close>.
\<close>

fun unflatten_path :: "jv \<Rightarrow> string list \<Rightarrow> jv \<Rightarrow> js_error + jv" where
  "unflatten_path acc [] leaf = Inr acc"
| "unflatten_path acc (e # rest) leaf =
     (case get_prop acc e of
        Inl err \<Rightarrow> Inl err
      | Inr cur \<Rightarrow>
          if truthy cur
          then (case unflatten_path cur rest leaf of
                  Inl err \<Rightarrow> Inl err
                | Inr cur' \<Rightarrow> if is_container acc then assign_prop acc e cur' else Inr acc)
          else (case assign_prop acc e (new_member rest leaf) of
                  Inl err \<Rightarrow> Inl err
                | Inr acc' \<Rightarrow>
                    (case unflatten_path (new_member rest leaf) rest leaf of
                       Inl err \<Rightarrow> Inl err
                     | Inr x \<Rightarrow> assign_prop acc e x)))"

fun unflatten_keys :: "(string \<times> jv) list \<Rightarrow> jv \<Rightarrow> js_error + jv" where
  "unflatten_keys [] res = Inr res"
| "unflatten_keys ((k, v) # kvs) res =
     (case unflatten_path res (split_on CHR ''.'' k) v of
        Inl err \<Rightarrow> Inl err
      | Inr res' \<Rightarrow> unflatten_keys kvs res')"

definition unflattenObject :: "jv \<Rightarrow> js_error + jv" where
  "unflattenObject obj =
     (case own_entries obj of Inl err \<Rightarrow> Inl err | Inr kvs \<Rightarrow> unflatten_keys kvs (Obj []))"

subsection \<open>The tree walker \<open>walkThrough\<close>\<close>

text \<open>
  \<^verbatim>\<open>
  const walkThrough = function* (obj) {
      const walk = function* (x, previous = []) {
          for (let key of Object.keys(x)) {
              if (typeof x[key] === 'object')
                  yield* walk(x[key], [...previous, key]);
              else
                  yield [[...previous, key], x[key]];
          }
      };
      yield* walk(obj);
  };
  \<close>
  The generator is modelled by what it yields before it ends: the list of pairs, and the
  error it ends with if it throws.
\<close>

fun walk :: "jv \<Rightarrow> string list \<Rightarrow> (string list \<times> jv) list \<times> js_error option"
  and walk_keys :: "(string \<times> jv) list \<Rightarrow> string list \<Rightarrow> (string list \<times> jv) list \<times> js_error option"
where
  "walk Undefined previous = ([], Some TypeError)"
| "walk Null previous = ([], Some TypeError)"
| "walk (Bool b) previous = ([], None)"
| "walk (Num n) previous = ([], None)"
| "walk (Str s) previous = (map (\<lambda>(key, c). (previous @ [key], c)) (str_entries s), None)"
| "walk (Obj ps) previous = walk_keys ps previous"
| "walk (Arr ps) previous = walk_keys ps previous"
| "walk_keys [] previous = ([], None)"
| "walk_keys ((key, v) # rest) previous =
     (if typeof v = ''object''
      then (case walk v (previous @ [key]) of
              (ys, Some e) \<Rightarrow> (ys, Some e)
            | (ys, None) \<Rightarrow> (case walk_keys rest previous of (zs, r) \<Rightarrow> (ys @ zs, r)))
      else (case walk_keys rest previous of (zs, r) \<Rightarrow> ((previous @ [key], v) # zs, r)))"

definition walkThrough :: "jv \<Rightarrow> (string list \<times> jv) list \<times> js_error option" where
  "walkThrough obj = walk obj []"

subsection \<open>The cycle-safe serializer \<open>stringifyCircularJSON\<close>\<close>

text \<open>
  \<^verbatim>\<open>
  const stringifyCircularJSON = obj => {
      const seen = new WeakSet();
      return JSON.stringify(obj, (k, v) => {
          if (v !== null && typeof v === 'object') {
              if (seen.has(v))
                  return;
              seen.add(v);
          }
          return v;
      });
  };
  \<close>
  The serializer tells containers apart by identity, and its input may be cyclic: a
  value is a scalar or a reference into a heap of objects and arrays. For
  \<open>JSON.stringify\<close> an array is its slots \<open>0 .. length - 1\<close> (a hole reads as \<open>undefined\<close>).
  A reference outside the heap denotes nothing, and the serializer is stuck on it.
\<close>

datatype hval = HUndefined | HNull | HBool bool | HNum int | HStr string | HRef nat

datatype hobj = HObj "(string \<times> hval) list" | HArr "hval list"

type_synonym heap = "hobj list"

text \<open>The text of a number, and \<open>QuoteJSONString\<close> with its escapes.\<close>

definition string_of_int :: "int \<Rightarrow> string" where
  "string_of_int i = (if i < 0 then ''-'' @ string_of_nat (nat (- i)) else string_of_nat (nat i))"

definition hex_digit :: "nat \<Rightarrow> char" where
  "hex_digit d = ''0123456789abcdef'' ! d"

definition escape_char :: "char \<Rightarrow> string" where
  "escape_char c =
     (if c = CHR 0x22 then [CHR 0x5C, CHR 0x22]
      else if c = CHR 0x5C then [CHR 0x5C, CHR 0x5C]
      else if c = CHR 0x08 then [CHR 0x5C, CHR ''b'']
      else if c = CHR 0x09 then [CHR 0x5C, CHR ''t'']
      else if c = CHR 0x0A then [CHR 0x5C, CHR ''n'']
      else if c = CHR 0x0C then [CHR 0x5C, CHR ''f'']
      else if c = CHR 0x0D then [CHR 0x5C, CHR ''r'']
      else if (of_char c :: nat) < 32
        then [CHR 0x5C, CHR ''u'', CHR ''0'', CHR ''0'',
              hex_digit ((of_char c :: nat) div 16), hex_digit ((of_char c :: nat) mod 16)]
      else [c])"

definition quote :: "string \<Rightarrow> string" where
  "quote s = [CHR 0x22] @ concat (map escape_char s) @ [CHR 0x22]"

fun join_comma :: "string list \<Rightarrow> string" where
  "join_comma [] = []"
| "join_comma [p] = p"
| "join_comma (p # q # ps) = p @ '','' @ join_comma (q # ps)"

text \<open>
  \<open>JSON.stringify\<close> with a replacer function, after \<open>SerializeJSONProperty\<close>,
  \<open>SerializeJSONObject\<close> and \<open>SerializeJSONArray\<close> of the language standard. The replacer
  is called on every property value, with the state it keeps between its calls. A
  property whose value comes back \<open>undefined\<close> has no text: a member of an object is then
  left out, an element of an array is written \<open>null\<close>. An object that is on the stack of
  the objects being serialized raises the TypeError of cyclic structures. The recursion
  follows the heap, so it takes fuel: one unit per level of nesting, and \<open>None\<close> when the
  fuel does not reach.
\<close>

fun serialize_members ::
  "('s \<Rightarrow> string \<Rightarrow> hval \<Rightarrow> (js_error + (string option \<times> 's)) option) \<Rightarrow> 's \<Rightarrow>
   (string \<times> hval) list \<Rightarrow> (js_error + (string list \<times> 's)) option" where
  "serialize_members f st [] = Some (Inr ([], st))"
| "serialize_members f st ((k, v) # ps) =
     (case f st k v of
        None \<Rightarrow> None
      | Some (Inl err) \<Rightarrow> Some (Inl err)
      | Some (Inr (strP, st1)) \<Rightarrow>
          (case serialize_members f st1 ps of
             None \<Rightarrow> None
           | Some (Inl err) \<Rightarrow> Some (Inl err)
           | Some (Inr (partial, st2)) \<Rightarrow>
               Some (Inr ((case strP of
                             None \<Rightarrow> partial
                           | Some s \<Rightarrow> (quote k @ '':'' @ s) # partial), st2))))"

fun serialize_elements ::
  "('s \<Rightarrow> string \<Rightarrow> hval \<Rightarrow> (js_error + (string option \<times> 's)) option) \<Rightarrow> 's \<Rightarrow>
   nat \<Rightarrow> hval list \<Rightarrow> (js_error + (string list \<times> 's)) option" where
  "serialize_elements f st i [] = Some (Inr ([], st))"
| "serialize_elements f st i (v # vs) =
     (case f st (string_of_nat i) v of
        None \<Rightarrow> None
      | Some (Inl err) \<Rightarrow> Some (Inl err)
      | Some (Inr (strP, st1)) \<Rightarrow>
          (case serialize_elements f st1 (Suc i) vs of
             None \<Rightarrow> None
           | Some (Inl err) \<Rightarrow> Some (Inl err)
           | Some (Inr (partial, st2)) \<Rightarrow>
               Some (Inr ((case strP of None \<Rightarrow> ''null'' | Some s \<Rightarrow> s) # partial, st2))))"

fun serialize_property ::
  "nat \<Rightarrow> ('s \<Rightarrow> string \<Rightarrow> hval \<Rightarrow> hval \<times> 's) \<Rightarrow> heap \<Rightarrow> nat list \<Rightarrow> 's \<Rightarrow> string \<Rightarrow> hval \<Rightarrow>
   (js_error + (string option \<times> 's)) option" where
  "serialize_property 0 replacer h stack st key holder_value = None"
| "serialize_property (Suc n) replacer h stack st key holder_value =
     (case replacer st key holder_value of
        (HUndefined, st1) \<Rightarrow> Some (Inr (None, st1))
      | (HNull, st1) \<Rightarrow> Some (Inr (Some ''null'', st1))
      | (HBool b, st1) \<Rightarrow> Some (Inr (Some (if b then ''true'' else ''false''), st1))
      | (HNum i, st1) \<Rightarrow> Some (Inr (Some (string_of_int i), st1))
      | (HStr s, st1) \<Rightarrow> Some (Inr (Some (quote s), st1))
      | (HRef a, st1) \<Rightarrow>
          if a \<in> set stack then Some (Inl TypeError)
          else if length h \<le> a then None
          else (case h ! a of
                  HObj ps \<Rightarrow>
                    (case serialize_members (serialize_property n replacer h (a # stack)) st1 ps of
                       None \<Rightarrow> None
                     | Some (Inl err) \<Rightarrow> Some (Inl err)
                     | Some (Inr (partial, st2)) \<Rightarrow>
                         Some (Inr (Some (''{'' @ join_comma partial @ ''}''), st2)))
                | HArr vs \<Rightarrow>
                    (case serialize_elements (serialize_property n replacer h (a # stack)) st1 0 vs of
                       None \<Rightarrow> None
                     | Some (Inl err) \<Rightarrow> Some (Inl err)
                     | Some (Inr (partial, st2)) \<Rightarrow>
                         Some (Inr (Some (''['' @ join_comma partial @ '']''), st2)))))"

definition JSON_stringify ::
  "nat \<Rightarrow> ('s \<Rightarrow> string \<Rightarrow> hval \<Rightarrow> hval \<times> 's) \<Rightarrow> 's \<Rightarrow> heap \<Rightarrow> hval \<Rightarrow> (js_error + string option) option" where
  "JSON_stringify fuel replacer st h obj =
     (case serialize_property fuel replacer h [] st [] obj of
        None \<Rightarrow> None
      | Some (Inl err) \<Rightarrow> Some (Inl err)
      | Some (Inr (str, st')) \<Rightarrow> Some (Inr str))"

text \<open>The replacer of \<open>stringifyCircularJSON\<close>; its state is the set \<open>seen\<close>.\<close>

definition seen_replacer :: "nat set \<Rightarrow> string \<Rightarrow> hval \<Rightarrow> hval \<times> nat set" where
  "seen_replacer seen k v =
     (case v of
        HRef a \<Rightarrow> if a \<in> seen then (HUndefined, seen) else (v, insert a seen)
      | _ \<Rightarrow> (v, seen))"

definition stringifyCircularJSON :: "nat \<Rightarrow> heap \<Rightarrow> hval \<Rightarrow> (js_error + string option) option" where
  "stringifyCircularJSON fuel h obj = JSON_stringify fuel seen_replacer {} h obj"

text \<open>
  \<open>JSON.stringify(obj)\<close>, called without a replacer, serializes every property value as
  it is: \<open>JSON_stringify fuel no_replacer () h obj\<close>.
\<close>

definition no_replacer :: "unit \<Rightarrow> string \<Rightarrow> hval \<Rightarrow> hval \<times> unit" where
  "no_replacer st k v = (v, st)"

section \<open>Notions of the specification\<close>

text \<open>
  The definitions of this section are not code of the repository: they state, in the
  words of the specification, what the operations are compared with.
\<close>


text \<open>
  The pruned tree: every member with a falsy value is removed, at every level, and the
  elements of a Sequence that are left are indexed from 0 again. A container is truthy,
  so it stays, pruned, also when nothing is left inside it.
\<close>

fun pruned :: "jv \<Rightarrow> jv"
  and pruned_props :: "(string \<times> jv) list \<Rightarrow> (string \<times> jv) list"
  and pruned_elems :: "(string \<times> jv) list \<Rightarrow> jv list"
where
  "pruned (Obj ps) = Obj (pruned_props ps)"
| "pruned (Arr ps) = Arr (array_of (pruned_elems ps))"
| "pruned Undefined = Undefined"
| "pruned Null = Null"
| "pruned (Bool b) = Bool b"
| "pruned (Num n) = Num n"
| "pruned (Str s) = Str s"
| "pruned_props [] = []"
| "pruned_props ((k, v) # ps) =
     (if truthy v then (k, pruned v) # pruned_props ps else pruned_props ps)"
| "pruned_elems [] = []"
| "pruned_elems ((k, v) # ps) =
     (if is_index k \<and> truthy v then pruned v # pruned_elems ps else pruned_elems ps)"

text \<open>A tree with no falsy member at any level, and with contiguous Sequences only.\<close>

fun fully_pruned :: "jv \<Rightarrow> bool" and fully_pruned_props :: "(string \<times> jv) list \<Rightarrow> bool" where
  "fully_pruned (Obj ps) = fully_pruned_props ps"
| "fully_pruned (Arr ps) =
     (map fst ps = map string_of_nat [0..<length ps] \<and> fully_pruned_props ps)"
| "fully_pruned Undefined = True"
| "fully_pruned Null = True"
| "fully_pruned (Bool b) = True"
| "fully_pruned (Num n) = True"
| "fully_pruned (Str s) = True"
| "fully_pruned_props [] = True"
| "fully_pruned_props ((k, v) # ps) = (truthy v \<and> fully_pruned v \<and> fully_pruned_props ps)"

text \<open>
  The representation invariant of property lists: the keys are distinct, the array
  indices come first in ascending order, and the other keys follow.
\<close>

definition key_before :: "string \<Rightarrow> string \<Rightarrow> bool" where
  "key_before k k' =
     (if is_index k then (\<not> is_index k' \<or> nat_of_digits k < nat_of_digits k')
      else \<not> is_index k')"

definition canonical_keys :: "string list \<Rightarrow> bool" where
  "canonical_keys ks = (distinct ks \<and> sorted_wrt key_before ks)"

fun wf_tree :: "jv \<Rightarrow> bool" and wf_props :: "(string \<times> jv) list \<Rightarrow> bool" where
  "wf_tree (Obj ps) = (canonical_keys (map fst ps) \<and> wf_props ps)"
| "wf_tree (Arr ps) = (canonical_keys (map fst ps) \<and> wf_props ps)"
| "wf_tree Undefined = True"
| "wf_tree Null = True"
| "wf_tree (Bool b) = True"
| "wf_tree (Num n) = True"
| "wf_tree (Str s) = True"
| "wf_props [] = True"
| "wf_props ((k, v) # ps) = (wf_tree v \<and> wf_props ps)"

fun props_of :: "jv \<Rightarrow> (string \<times> jv) list" where
  "props_of (Obj ps) = ps"
| "props_of (Arr ps) = ps"
| "props_of v = []"

fun with_props :: "jv \<Rightarrow> (string \<times> jv) list \<Rightarrow> jv" where
  "with_props (Arr ps) qs = Arr qs"
| "with_props v qs = Obj qs"

text \<open>
  The flattening of the specification: the pairs the walker yields, each path joined
  with dots.
\<close>

fun join_dot :: "string list \<Rightarrow> string" where
  "join_dot [] = []"
| "join_dot [p] = p"
| "join_dot (p # q # ps) = p @ ''.'' @ join_dot (q # ps)"

definition flatten :: "jv \<Rightarrow> js_error + (string \<times> jv) list" where
  "flatten t =
     (case walkThrough t of
        (ys, Some err) \<Rightarrow> Inl err
      | (ys, None) \<Rightarrow> Inr (map (\<lambda>(path, v). (join_dot path, v)) ys))"




text \<open>
  The standard serialization text of a tree. The length of an array is one more than its
  greatest index, and its slots are read by index.
\<close>

fun member_texts :: "(string \<times> string option) list \<Rightarrow> string list" where
  "member_texts [] = []"
| "member_texts ((k, None) # ms) = member_texts ms"
| "member_texts ((k, Some s) # ms) = (quote k @ '':'' @ s) # member_texts ms"

definition element_text :: "string option \<Rightarrow> string" where
  "element_text strP = (case strP of None \<Rightarrow> ''null'' | Some s \<Rightarrow> s)"

definition array_length :: "(string \<times> 'v) list \<Rightarrow> nat" where
  "array_length ps =
     foldr (\<lambda>p n. if is_index (fst p) then max (Suc (nat_of_digits (fst p))) n else n) ps 0"

definition array_slots :: "'v \<Rightarrow> (string \<times> 'v) list \<Rightarrow> 'v list" where
  "array_slots d ps =
     map (\<lambda>i. case lookup (string_of_nat i) ps of None \<Rightarrow> d | Some v \<Rightarrow> v) [0..<array_length ps]"

fun json_text :: "jv \<Rightarrow> string option"
  and json_members :: "(string \<times> jv) list \<Rightarrow> (string \<times> string option) list"
where
  "json_text Undefined = None"
| "json_text Null = Some ''null''"
| "json_text (Bool b) = Some (if b then ''true'' else ''false'')"
| "json_text (Num i) = Some (string_of_int i)"
| "json_text (Str s) = Some (quote s)"
| "json_text (Obj ps) = Some (''{'' @ join_comma (member_texts (json_members ps)) @ ''}'')"
| "json_text (Arr ps) =
     Some (''['' @ join_comma (map element_text (array_slots None (json_members ps))) @ '']'')"
| "json_members [] = []"
| "json_members ((k, v) # ps) = (k, json_text v) # json_members ps"

text \<open>
  A tree in the heap, every container at an address of its own: this is a tree in which
  no container instance occurs twice. \<open>contiguous\<close> says that every Sequence of the tree
  has the keys \<open>0 .. n - 1\<close>, as the data model of the specification has it.
\<close>

fun alloc :: "jv \<Rightarrow> heap \<Rightarrow> hval \<times> heap"
  and alloc_props :: "(string \<times> jv) list \<Rightarrow> heap \<Rightarrow> (string \<times> hval) list \<times> heap"
where
  "alloc Undefined h = (HUndefined, h)"
| "alloc Null h = (HNull, h)"
| "alloc (Bool b) h = (HBool b, h)"
| "alloc (Num i) h = (HNum i, h)"
| "alloc (Str s) h = (HStr s, h)"
| "alloc (Obj ps) h =
     (case alloc_props ps h of (qs, h1) \<Rightarrow> (HRef (length h1), h1 @ [HObj qs]))"
| "alloc (Arr ps) h =
     (case alloc_props ps h of (qs, h1) \<Rightarrow> (HRef (length h1), h1 @ [HArr (array_slots HUndefined qs)]))"
| "alloc_props [] h = ([], h)"
| "alloc_props ((k, v) # ps) h =
     (case alloc v h of (x, h1) \<Rightarrow>
        (case alloc_props ps h1 of (qs, h2) \<Rightarrow> ((k, x) # qs, h2)))"

fun contiguous :: "jv \<Rightarrow> bool" and contiguous_props :: "(string \<times> jv) list \<Rightarrow> bool" where
  "contiguous (Obj ps) = contiguous_props ps"
| "contiguous (Arr ps) =
     (map fst ps = map string_of_nat [0..<length ps] \<and> length ps \<le> 4294967295
      \<and> contiguous_props ps)"
| "contiguous Undefined = True"
| "contiguous Null = True"
| "contiguous (Bool b) = True"
| "contiguous (Num i) = True"
| "contiguous (Str s) = True"
| "contiguous_props [] = True"
| "contiguous_props ((k, v) # ps) = (contiguous v \<and> contiguous_props ps)"

fun depth :: "jv \<Rightarrow> nat" and depth_props :: "(string \<times> jv) list \<Rightarrow> nat" where
  "depth (Obj ps) = Suc (depth_props ps)"
| "depth (Arr ps) = Suc (depth_props ps)"
| "depth Undefined = 0"
| "depth Null = 0"
| "depth (Bool b) = 0"
| "depth (Num i) = 0"
| "depth (Str s) = 0"
| "depth_props [] = 0"
| "depth_props ((k, v) # ps) = max (depth v) (depth_props ps)"

text \<open>Auxiliary notions of the proofs about allocated trees.\<close>

definition extends :: "heap \<Rightarrow> heap \<Rightarrow> bool" where
  "extends H h = (\<exists>ext. H = h @ ext)"

fun root_of :: "hval \<Rightarrow> nat set" where
  "root_of (HRef a) = {a}"
| "root_of v = {}"

definition tree_result ::
  "nat set \<Rightarrow> nat \<Rightarrow> nat \<Rightarrow> nat set \<Rightarrow> (js_error + ('a \<times> nat set)) option \<Rightarrow> 'a \<Rightarrow> bool" where
  "tree_result roots lo hi seen res expected =
     (\<exists>seen'. res = Some (Inr (expected, seen')) \<and> seen \<subseteq> seen' \<and> roots \<subseteq> seen'
        \<and> seen' \<subseteq> seen \<union> {lo..<hi})"

section \<open>Properties\<close>

text \<open>The definitions that evaluate a concrete input.\<close>

lemmas key_eval = canonical_keys_def key_before_def is_index_def is_digit_def nat_of_digits_def
  digit_val_def

lemmas num_eval = isNaN_Number_def next_key_def new_member_def trim_def is_ws_def
  is_signed_decimal_def is_unsigned_decimal_def is_radix_literal_def is_exponent_part_def
  digits1_def is_digit_def

lemmas prop_eval = set_prop_def is_index_def is_digit_def nat_of_digits_def digit_val_def

lemmas json_eval = stringifyCircularJSON_def JSON_stringify_def seen_replacer_def no_replacer_def
  quote_def escape_char_def string_of_int_def string_of_nat.simps digit_char_def

subsection \<open>Index strings\<close>

lemma digit_cases: "d < 10 \<Longrightarrow> d = 0 \<or> d = 1 \<or> d = 2 \<or> d = 3 \<or> d = 4 \<or> d = 5 \<or> d = 6 \<or> d = 7 \<or> d = 8 \<or> d = (9::nat)"
  by arith

lemma digit_val_digit_char: "d < 10 \<Longrightarrow> digit_val (digit_char d) = d"
  using digit_cases [of d] by (auto simp: digit_val_def digit_char_def)

lemma is_digit_digit_char: "d < 10 \<Longrightarrow> is_digit (digit_char d)"
  using digit_cases [of d] by (auto simp: is_digit_def digit_char_def)

lemma digit_char_zero: "d < 10 \<Longrightarrow> digit_char d = CHR ''0'' \<longleftrightarrow> d = 0"
  using digit_cases [of d] by (auto simp: digit_char_def)

lemma nat_of_digits_snoc: "nat_of_digits (s @ [c]) = 10 * nat_of_digits s + digit_val c"
  by (simp add: nat_of_digits_def)

lemma nat_of_digits_string_of_nat: "nat_of_digits (string_of_nat n) = n"
proof (induction n rule: string_of_nat.induct)
  case (1 n)
  show ?case
  proof (cases "n < 10")
    case True
    then show ?thesis
      by (subst string_of_nat.simps) (simp add: nat_of_digits_def digit_val_digit_char)
  next
    case False
    with 1 have "nat_of_digits (string_of_nat (n div 10)) = n div 10" by simp
    with False show ?thesis
      by (subst string_of_nat.simps) (simp add: nat_of_digits_snoc digit_val_digit_char)
  qed
qed

lemma string_of_nat_digits: "list_all is_digit (string_of_nat n)"
proof (induction n rule: string_of_nat.induct)
  case (1 n)
  then show ?case
    by (subst string_of_nat.simps) (simp add: is_digit_digit_char)
qed

lemma string_of_nat_nonempty: "string_of_nat n \<noteq> []"
  by (subst string_of_nat.simps) simp

lemma string_of_nat_hd: "hd (string_of_nat n) = CHR ''0'' \<Longrightarrow> string_of_nat n = ''0''"
proof (induction n rule: string_of_nat.induct)
  case (1 n)
  show ?case
  proof (cases "n < 10")
    case True
    with 1(2) have "digit_char n = CHR ''0''"
      by (subst (asm) string_of_nat.simps) simp
    with True have "n = 0" by (simp add: digit_char_zero)
    then show ?thesis by (subst string_of_nat.simps) (simp add: digit_char_def)
  next
    case False
    with 1(2) have "hd (string_of_nat (n div 10)) = CHR ''0''"
      by (subst (asm) string_of_nat.simps) (simp add: string_of_nat_nonempty)
    with 1(1) False have "string_of_nat (n div 10) = ''0''" by simp
    then have "nat_of_digits (string_of_nat (n div 10)) = 0" by (simp add: nat_of_digits_def digit_val_def)
    then have "n div 10 = 0" by (simp add: nat_of_digits_string_of_nat)
    with False show ?thesis by simp
  qed
qed

lemma is_index_string_of_nat: "is_index (string_of_nat n) \<longleftrightarrow> n < 4294967295"
  using string_of_nat_hd [of n]
  by (auto simp: is_index_def string_of_nat_digits string_of_nat_nonempty nat_of_digits_string_of_nat)

lemma string_of_nat_inj: "string_of_nat i = string_of_nat j \<Longrightarrow> i = j"
  by (metis nat_of_digits_string_of_nat)

lemma key_before_string_of_nat: "i < j \<Longrightarrow> key_before (string_of_nat i) (string_of_nat j)"
  by (auto simp: key_before_def is_index_string_of_nat nat_of_digits_string_of_nat)

lemma canonical_keys_upt: "canonical_keys (map string_of_nat [0..<n])"
proof -
  have "inj_on string_of_nat (set [0..<n])"
    by (rule inj_onI) (rule string_of_nat_inj)
  then have d: "distinct (map string_of_nat [0..<n])"
    by (simp add: distinct_map)
  have "sorted_wrt key_before (map string_of_nat [0..<n])"
    by (simp add: sorted_wrt_iff_nth_less key_before_string_of_nat)
  with d show ?thesis by (simp add: canonical_keys_def)
qed

subsection \<open>Writing and reading properties\<close>

lemma has_key_iff: "has_key k ps \<longleftrightarrow> k \<in> fst ` set ps"
  by (induction ps) auto

lemma insert_index_append:
  "\<forall>k' \<in> fst ` set ps. is_index k' \<and> nat_of_digits k' < nat_of_digits k \<Longrightarrow>
   insert_index k v ps = ps @ [(k, v)]"
  by (induction ps) auto

lemma set_prop_append:
  assumes "canonical_keys (map fst ps @ [k])"
  shows "set_prop ps k v = ps @ [(k, v)]"
proof -
  from assms have nk: "\<not> has_key k ps"
    by (auto simp: canonical_keys_def has_key_iff)
  from assms have kb: "\<forall>k' \<in> fst ` set ps. key_before k' k"
    by (auto simp: canonical_keys_def sorted_wrt_append)
  show ?thesis
  proof (cases "is_index k")
    case True
    with kb have "\<forall>k' \<in> fst ` set ps. is_index k' \<and> nat_of_digits k' < nat_of_digits k"
      by (auto simp: key_before_def split: if_splits)
    with nk True show ?thesis by (simp add: set_prop_def insert_index_append)
  next
    case False
    with nk show ?thesis by (simp add: set_prop_def)
  qed
qed

lemma canonical_keys_drop:
  "canonical_keys (as @ k # ks) \<Longrightarrow> canonical_keys (as @ ks)"
  by (auto simp: canonical_keys_def sorted_wrt_append)

lemma canonical_keys_shift:
  "canonical_keys (as @ k # ks) \<Longrightarrow> canonical_keys ((as @ [k]) @ ks)"
  by simp

lemma canonical_keys_prefix1:
  "canonical_keys (as @ k # ks) \<Longrightarrow> canonical_keys (as @ [k])"
  by (auto simp: canonical_keys_def sorted_wrt_append)

lemma canonical_keys_filter: "canonical_keys ks \<Longrightarrow> canonical_keys (filter f ks)"
  by (simp add: canonical_keys_def sorted_wrt_filter)






lemma assign_prop_kind:
  "assign_prop acc e x = Inr acc' \<Longrightarrow> is_container acc' \<and> isArray acc' = isArray acc"
  by (cases acc) auto


subsection \<open>\<open>get\<close>\<close>









subsection \<open>\<open>compactObject\<close>\<close>

lemma pruned_container: "is_container v \<Longrightarrow> is_container (pruned v)"
  by (cases v) auto

lemma typeof_object_truthy: "truthy v \<Longrightarrow> typeof v = ''object'' \<longleftrightarrow> is_container v"
  by (cases v) auto

lemma pruned_scalar: "\<not> is_container v \<Longrightarrow> pruned v = v"
  by (cases v) auto

lemma pruned_props_keys: "map fst (pruned_props ps) = map fst (filter (\<lambda>p. truthy (snd p)) ps)"
  by (induction ps) auto

lemma array_of_keys: "map fst (array_of vs) = map string_of_nat [0..<length vs]"
  by (simp add: array_of_def)

lemma wf_props_iff: "wf_props ps \<longleftrightarrow> (\<forall>v \<in> snd ` set ps. wf_tree v)"
  by (induction ps) auto

lemma set_array_of: "snd ` set (array_of vs) = set vs"
  by (simp add: array_of_def flip: set_map)

lemma wf_props_filter_Boolean: "wf_props ps \<Longrightarrow> wf_props (filter_Boolean ps)"
  by (auto simp: wf_props_iff set_array_of filter_Boolean_def array_elems_def)

lemma pruned_props_zip:
  "length ks = length vs \<Longrightarrow> \<forall>v \<in> set vs. truthy v \<Longrightarrow>
   pruned_props (zip ks vs) = zip ks (map pruned vs)"
  by (induction ks vs rule: list_induct2) auto

lemma pruned_elems_eq: "pruned_elems ps = map pruned (filter truthy (array_elems ps))"
  by (induction ps) (auto simp: array_elems_def)

lemma pruned_props_filter_Boolean: "pruned_props (filter_Boolean ps) = array_of (pruned_elems ps)"
  by (simp add: filter_Boolean_def array_of_def pruned_props_zip pruned_elems_eq)

text \<open>On a well-formed container the pruner computes the pruned tree.\<close>

lemma compact_correct:
  "(wf_tree t \<longrightarrow> is_container t \<longrightarrow> compactObject t = Inr (pruned t))"
  "(wf_props kvs \<longrightarrow> is_container acc \<longrightarrow> canonical_keys (map fst (props_of acc) @ map fst kvs) \<longrightarrow>
     compact_reduce kvs acc = Inr (with_props acc (props_of acc @ pruned_props kvs)))"
proof (induction t and kvs acc rule: compactObject_compact_reduce.induct)
  case (6 ps)
  then show ?case by simp
next
  case (7 ps)
  have "canonical_keys (map fst (filter_Boolean ps))"
    by (simp add: filter_Boolean_def array_of_keys canonical_keys_upt)
  with 7 show ?case
    by (simp add: wf_props_filter_Boolean pruned_props_filter_Boolean)
next
  case (8 acc)
  then show ?case by (cases acc) auto
next
  case (9 key v rest acc)
  show ?case
  proof (intro impI)
    assume wf: "wf_props ((key, v) # rest)" and c: "is_container acc"
      and ck: "canonical_keys (map fst (props_of acc) @ map fst ((key, v) # rest))"
    show "compact_reduce ((key, v) # rest) acc =
        Inr (with_props acc (props_of acc @ pruned_props ((key, v) # rest)))"
    proof (cases "truthy v")
      case False
      from ck have "canonical_keys (map fst (props_of acc) @ map fst rest)"
        using canonical_keys_drop by simp
      with 9(3) False wf c show ?thesis by simp
    next
      case True
      have x: "(if typeof v = ''object'' then compactObject v else Inr v) = Inr (pruned v)"
      proof (cases "typeof v = ''object''")
        case t: True
        with True have "is_container v" by (simp add: typeof_object_truthy)
        with 9(1) True t wf show ?thesis by simp
      next
        case f: False
        with True have "\<not> is_container v" by (simp add: typeof_object_truthy)
        with f show ?thesis by (simp add: pruned_scalar)
      qed
      from ck have ck1: "canonical_keys (map fst (props_of acc) @ [key])"
        using canonical_keys_prefix1 by simp
      define acc' where "acc' = with_props acc (props_of acc @ [(key, pruned v)])"
      from c ck1 have a: "assign_prop acc key (pruned v) = Inr acc'"
        by (cases acc) (auto simp: acc'_def set_prop_append)
      from c have c': "is_container acc'" by (cases acc) (auto simp: acc'_def)
      from c have p': "props_of acc' = props_of acc @ [(key, pruned v)]"
        by (cases acc) (auto simp: acc'_def)
      from ck p' have ck': "canonical_keys (map fst (props_of acc') @ map fst rest)" by simp
      from c have w: "with_props acc' = with_props acc" by (cases acc) (auto simp: acc'_def fun_eq_iff)
      from 9(2) [OF True x a] wf c' ck'
      have "compact_reduce rest acc' = Inr (with_props acc' (props_of acc' @ pruned_props rest))"
        by simp
      with True x a p' w show ?thesis by simp
    qed
  qed
qed simp_all

lemma truthy_pruned: "truthy (pruned v) = truthy v"
  by (cases v) auto

lemma canonical_keys_pruned_props:
  "canonical_keys (map fst ps) \<Longrightarrow> canonical_keys (map fst (pruned_props ps))"
proof -
  assume c: "canonical_keys (map fst ps)"
  have "map fst (filter (\<lambda>p. truthy (snd p)) ps) = map fst (filter (\<lambda>p. truthy (snd p)) ps)" ..
  have d: "distinct (map fst (filter (\<lambda>p. truthy (snd p)) ps))"
    using c by (simp add: canonical_keys_def distinct_map_filter)
  have s: "sorted_wrt key_before (map fst (filter (\<lambda>p. truthy (snd p)) ps))"
    using c by (simp add: canonical_keys_def sorted_wrt_map sorted_wrt_filter)
  from d s show ?thesis by (simp add: canonical_keys_def pruned_props_keys)
qed

lemma strictly_sorted_bound:
  fixes xs :: "nat list"
  assumes "sorted_wrt (<) xs" "\<forall>x \<in> set xs. x < b"
  shows "length xs \<le> b"
proof -
  from assms(1) have "distinct xs" by (simp add: strict_sorted_iff)
  then have "length xs = card (set xs)" by (simp add: distinct_card)
  also from assms(2) have "set xs \<subseteq> {..<b}" by auto
  then have "card (set xs) \<le> card {..<b}" by (intro card_mono) auto
  finally show ?thesis by simp
qed

lemma index_keys_sorted:
  "sorted_wrt key_before ks \<Longrightarrow> sorted_wrt (<) (map nat_of_digits (filter is_index ks))"
proof (induction ks)
  case Nil
  then show ?case by simp
next
  case (Cons k ks)
  then show ?case by (auto simp: key_before_def)
qed

lemma index_keys_bound:
  assumes "canonical_keys ks"
  shows "length (filter is_index ks) \<le> 4294967295"
proof -
  from assms have "sorted_wrt (<) (map nat_of_digits (filter is_index ks))"
    by (simp add: canonical_keys_def index_keys_sorted)
  moreover have "\<forall>x \<in> set (map nat_of_digits (filter is_index ks)). x < 4294967295"
    by (auto simp: is_index_def)
  ultimately have "length (map nat_of_digits (filter is_index ks)) \<le> 4294967295"
    by (rule strictly_sorted_bound)
  then show ?thesis by simp
qed

lemma array_elems_length: "length (array_elems ps) = length (filter is_index (map fst ps))"
  by (induction ps) (auto simp: array_elems_def)

lemma pruned_elems_length: "length (pruned_elems ps) \<le> length (array_elems ps)"
  by (simp add: pruned_elems_eq)

lemma array_elems_array_of:
  assumes "length vs \<le> 4294967295"
  shows "array_elems (array_of vs) = vs"
proof -
  have "filter (\<lambda>p. is_index (fst p)) (array_of vs) = array_of vs"
    unfolding array_of_def filter_id_conv using assms
    by (auto simp: is_index_string_of_nat dest!: set_zip_leftD)
  then show ?thesis by (simp add: array_elems_def array_of_def)
qed

lemma pruned_elems_array_of:
  assumes "length vs \<le> 4294967295" "\<forall>v \<in> set vs. truthy v \<and> pruned v = v"
  shows "pruned_elems (array_of vs) = vs"
  using assms by (simp add: pruned_elems_eq array_elems_array_of map_idI)

lemma fp_props_iff: "fully_pruned_props ps \<longleftrightarrow> (\<forall>v \<in> snd ` set ps. truthy v \<and> fully_pruned v)"
  by (induction ps) auto

text \<open>The pruned tree is well formed, fully pruned, and pruning it again changes nothing.\<close>

lemma pruned_wf_idem:
  "wf_tree t \<longrightarrow> wf_tree (pruned t) \<and> pruned (pruned t) = pruned t \<and> fully_pruned (pruned t)"
  "wf_props ps \<longrightarrow> wf_props (pruned_props ps) \<and> pruned_props (pruned_props ps) = pruned_props ps
      \<and> fully_pruned_props (pruned_props ps)"
  "wf_props ps \<longrightarrow> (\<forall>v \<in> set (pruned_elems ps). wf_tree v \<and> truthy v \<and> pruned v = v \<and> fully_pruned v)"
proof (induction t and ps and ps rule: pruned_pruned_props_pruned_elems.induct)
  case (1 ps)
  show ?case
  proof
    assume wf: "wf_tree (Obj ps)"
    then have c: "canonical_keys (map fst (pruned_props ps))"
      by (simp add: canonical_keys_pruned_props)
    from wf 1 have "wf_props (pruned_props ps)"
      and "pruned_props (pruned_props ps) = pruned_props ps"
      and "fully_pruned_props (pruned_props ps)" by simp_all
    with c show "wf_tree (pruned (Obj ps)) \<and> pruned (pruned (Obj ps)) = pruned (Obj ps)
        \<and> fully_pruned (pruned (Obj ps))" by simp
  qed
next
  case (2 ps)
  show ?case
  proof
    assume wf: "wf_tree (Arr ps)"
    let ?es = "pruned_elems ps"
    from wf 2 have es: "\<forall>v \<in> set ?es. wf_tree v \<and> truthy v \<and> pruned v = v \<and> fully_pruned v" by simp
    from wf have "canonical_keys (map fst ps)" by simp
    then have "length (filter is_index (map fst ps)) \<le> 4294967295"
      by (rule index_keys_bound)
    then have "length (array_elems ps) \<le> 4294967295"
      by (simp only: array_elems_length)
    with pruned_elems_length [of ps] have len: "length ?es \<le> 4294967295" by simp
    from es have w: "wf_props (array_of ?es)" by (simp add: wf_props_iff set_array_of)
    from len es have i: "pruned_elems (array_of ?es) = ?es" by (simp add: pruned_elems_array_of)
    have f: "fully_pruned_props (array_of ?es)" using es by (simp add: fp_props_iff set_array_of)
    have k: "map fst (array_of ?es) = map string_of_nat [0..<length (array_of ?es)]"
      by (simp add: array_of_def)
    have c: "canonical_keys (map fst (array_of ?es))"
      by (simp only: array_of_keys canonical_keys_upt)
    from w c have 1: "wf_tree (pruned (Arr ps))" by simp
    from i have 2: "pruned (pruned (Arr ps)) = pruned (Arr ps)" by simp
    from f k have 3: "fully_pruned (pruned (Arr ps))" by simp
    from 1 2 3 show "wf_tree (pruned (Arr ps)) \<and> pruned (pruned (Arr ps)) = pruned (Arr ps)
        \<and> fully_pruned (pruned (Arr ps))" by blast
  qed
next
  case (9 k v ps)
  show ?case
  proof
    assume wf: "wf_props ((k, v) # ps)"
    show "wf_props (pruned_props ((k, v) # ps)) \<and>
      pruned_props (pruned_props ((k, v) # ps)) = pruned_props ((k, v) # ps) \<and>
      fully_pruned_props (pruned_props ((k, v) # ps))"
    proof (cases "truthy v")
      case True
      with 9(1) wf have a: "wf_tree (pruned v)" "pruned (pruned v) = pruned v" "fully_pruned (pruned v)"
        by simp_all
      from 9(2) True wf have b: "wf_props (pruned_props ps)"
        "pruned_props (pruned_props ps) = pruned_props ps" "fully_pruned_props (pruned_props ps)"
        by simp_all
      from True a b show ?thesis by (simp add: truthy_pruned)
    next
      case False
      with 9(3) wf show ?thesis by simp
    qed
  qed
next
  case (11 k v ps)
  show ?case
  proof
    assume wf: "wf_props ((k, v) # ps)"
    show "\<forall>x \<in> set (pruned_elems ((k, v) # ps)). wf_tree x \<and> truthy x \<and> pruned x = x \<and> fully_pruned x"
    proof (cases "is_index k \<and> truthy v")
      case True
      with 11(1) wf have a: "wf_tree (pruned v)" "pruned (pruned v) = pruned v" "fully_pruned (pruned v)"
        by simp_all
      from 11(2) True wf
      have b: "\<forall>x \<in> set (pruned_elems ps). wf_tree x \<and> truthy x \<and> pruned x = x \<and> fully_pruned x"
        by simp
      from True a b show ?thesis by (simp add: truthy_pruned)
    next
      case False
      then have "pruned_elems ((k, v) # ps) = pruned_elems ps" by auto
      with 11(3) False wf show ?thesis by simp
    qed
  qed
qed simp_all

lemma compactObject_pruned:
  "wf_tree t \<Longrightarrow> is_container t \<Longrightarrow> compactObject t = Inr (pruned t)"
  by (simp add: compact_correct(1))

lemma pruned_keeps_kind: "isArray (pruned t) = isArray t"
  by (cases t) auto

lemma pruned_props_member:
  "(k, v) \<in> set ps \<Longrightarrow> truthy v \<Longrightarrow> (k, pruned v) \<in> set (pruned_props ps)"
  by (induction ps) auto

lemma pruned_elems_member:
  "(k, v) \<in> set ps \<Longrightarrow> is_index k \<Longrightarrow> truthy v \<Longrightarrow> pruned v \<in> set (pruned_elems ps)"
  by (induction ps) auto

lemma pruned_keeps_containers:
  assumes "(k, v) \<in> set (props_of t)" "is_container v" "isArray t \<longrightarrow> is_index k"
  shows "pruned v \<in> snd ` set (props_of (pruned t))"
proof -
  from assms(2) have tv: "truthy v" by (cases v) auto
  show ?thesis
  proof (cases t)
    case (Obj ps)
    with assms tv have "(k, pruned v) \<in> set (pruned_props ps)"
      by (simp add: pruned_props_member)
    with Obj show ?thesis by force
  next
    case (Arr ps)
    with assms tv have "pruned v \<in> set (pruned_elems ps)"
      by (simp add: pruned_elems_member)
    with Arr show ?thesis by (simp add: set_array_of)
  qed (use assms in auto)
qed

text \<open>
  C7. The pruner is idempotent: on every tree whose top level is a Mapping or a Sequence,
  \<open>compactObject\<close> returns a tree, and pruning that tree again returns it unchanged.
\<close>

theorem compactObject_idempotent:
  assumes "wf_tree t" "is_container t"
  shows "\<exists>c. compactObject t = Inr c \<and> compactObject c = Inr c"
proof -
  from assms have 1: "compactObject t = Inr (pruned t)" by (rule compactObject_pruned)
  from assms have "wf_tree (pruned t)" "is_container (pruned t)"
    by (simp_all add: pruned_wf_idem(1) pruned_container)
  then have "compactObject (pruned t) = Inr (pruned (pruned t))" by (rule compactObject_pruned)
  with assms have "compactObject (pruned t) = Inr (pruned t)" by (simp add: pruned_wf_idem(1))
  with 1 show ?thesis by blast
qed

theorem compactObject_idempotent_witness:
  "wf_tree (Obj [(''a'', Null), (''e'', Num 1), (''g'', Str ''a''),
       (''h'', Arr [(''0'', Null), (''1'', Str ''''), (''2'', Bool True)]),
       (''i'', Obj [(''j'', Num 0), (''k'', Bool False)])])
   \<and> (\<exists>c. compactObject (Obj [(''a'', Null), (''e'', Num 1), (''g'', Str ''a''),
       (''h'', Arr [(''0'', Null), (''1'', Str ''''), (''2'', Bool True)]),
       (''i'', Obj [(''j'', Num 0), (''k'', Bool False)])]) = Inr c \<and> compactObject c = Inr c)"
  using compactObject_idempotent [of "Obj [(''a'', Null), (''e'', Num 1), (''g'', Str ''a''),
       (''h'', Arr [(''0'', Null), (''1'', Str ''''), (''2'', Bool True)]),
       (''i'', Obj [(''j'', Num 0), (''k'', Bool False)])]"]
  by (simp add: key_eval)

text \<open>
  C8. On a Mapping or Sequence, \<open>compactObject\<close> returns the tree \<open>pruned t\<close>: the members
  with a falsy value are dropped at every level and the elements of a Sequence are
  indexed anew from 0. The result has the kind of the input, holds no falsy member and
  only contiguous Sequences (\<open>fully_pruned\<close>), and every member that is a Mapping or a
  Sequence is still there, pruned, also when nothing is left inside it. The witness is
  the example of the specification: \<open>{a: null, b: false, c: true, h: [null, false, 1]}\<close>
  gives \<open>{c: true, h: [1]}\<close>.
\<close>

theorem compactObject_prunes:
  assumes "wf_tree t" "is_container t"
  shows "compactObject t = Inr (pruned t)
    \<and> isArray (pruned t) = isArray t
    \<and> fully_pruned (pruned t)
    \<and> (\<forall>(k, v) \<in> set (props_of t). is_container v \<and> (isArray t \<longrightarrow> is_index k) \<longrightarrow>
          pruned v \<in> snd ` set (props_of (pruned t)) \<and> is_container (pruned v))"
proof -
  from assms have 1: "compactObject t = Inr (pruned t)" by (rule compactObject_pruned)
  from assms have 2: "fully_pruned (pruned t)" by (simp add: pruned_wf_idem(1))
  have 3: "\<forall>(k, v) \<in> set (props_of t). is_container v \<and> (isArray t \<longrightarrow> is_index k) \<longrightarrow>
          pruned v \<in> snd ` set (props_of (pruned t)) \<and> is_container (pruned v)"
    using pruned_keeps_containers [of _ _ t] pruned_container by blast
  from 1 2 3 show ?thesis by (simp add: pruned_keeps_kind)
qed

theorem compactObject_prunes_witness:
  "wf_tree (Obj [(''a'', Null), (''b'', Bool False), (''c'', Bool True),
       (''h'', Arr [(''0'', Null), (''1'', Bool False), (''2'', Num 1)])])
   \<and> compactObject (Obj [(''a'', Null), (''b'', Bool False), (''c'', Bool True),
       (''h'', Arr [(''0'', Null), (''1'', Bool False), (''2'', Num 1)])])
     = Inr (Obj [(''c'', Bool True), (''h'', Arr [(''0'', Num 1)])])"
  using compactObject_prunes [of "Obj [(''a'', Null), (''b'', Bool False), (''c'', Bool True),
       (''h'', Arr [(''0'', Null), (''1'', Bool False), (''2'', Num 1)])]"]
  by (simp add: key_eval array_of_def string_of_nat.simps digit_char_def)

subsection \<open>\<open>unflattenObject\<close>\<close>





lemma unflatten_path_kind:
  "unflatten_path acc segs leaf = Inr acc' \<Longrightarrow> is_container acc \<Longrightarrow>
   is_container acc' \<and> isArray acc' = isArray acc"
  by (cases segs) (auto split: sum.splits if_splits dest: assign_prop_kind)




lemma container_kinds: "is_container v \<Longrightarrow> is_mapping v \<longleftrightarrow> \<not> isArray v"
  by (cases v) auto


lemma unflatten_keys_kind:
  "unflatten_keys kvs res = Inr r \<Longrightarrow> is_container res \<Longrightarrow>
   is_container r \<and> isArray r = isArray res"
proof (induction kvs arbitrary: res)
  case Nil
  then show ?case by simp
next
  case (Cons kv kvs)
  obtain k v where kv: "kv = (k, v)" by (cases kv)
  from Cons.prems(1) kv obtain res' where
    p: "unflatten_path res (split_on CHR ''.'' k) v = Inr res'" and
    r: "unflatten_keys kvs res' = Inr r"
    by (auto split: sum.splits)
  from p Cons.prems(2) have "is_container res' \<and> isArray res' = isArray res"
    by (rule unflatten_path_kind)
  with Cons.IH [OF r] show ?case by simp
qed






text \<open>
  C10. What \<open>unflattenObject\<close> returns is a Mapping at the top level, also when the first
  segment of every key is numeric: \<open>unflattenObject({'0.a': 1})\<close> is \<open>{0: {a: 1}}\<close>.
\<close>

theorem unflattenObject_root_is_mapping:
  "(unflattenObject obj = Inr r \<longrightarrow> is_mapping r)
   \<and> unflattenObject (Obj [(''0.a'', Num 1)]) = Inr (Obj [(''0'', Obj [(''a'', Num 1)])])"
proof -
  have "is_mapping r" if "unflattenObject obj = Inr r"
  proof -
    from that obtain kvs where "unflatten_keys kvs (Obj []) = Inr r"
      by (auto simp: unflattenObject_def split: sum.splits)
    then have "is_container r \<and> isArray r = isArray (Obj [])"
      by (rule unflatten_keys_kind) simp
    then show ?thesis by (simp add: container_kinds)
  qed
  moreover have "unflattenObject (Obj [(''0.a'', Num 1)]) = Inr (Obj [(''0'', Obj [(''a'', Num 1)])])"
    by (simp add: unflattenObject_def num_eval prop_eval)
  ultimately show ?thesis by blast
qed

theorem unflattenObject_root_is_mapping_witness:
  "unflattenObject (Obj [(''0.0'', Num 1), (''1.0'', Num 2)])
     = Inr (Obj [(''0'', Arr [(''0'', Num 1)]), (''1'', Arr [(''0'', Num 2)])])
   \<and> is_mapping (Obj [(''0'', Arr [(''0'', Num 1)]), (''1'', Arr [(''0'', Num 2)])])"
  using unflattenObject_root_is_mapping [of "Obj [(''0.0'', Num 1), (''1.0'', Num 2)]"
      "Obj [(''0'', Arr [(''0'', Num 1)]), (''1'', Arr [(''0'', Num 2)])]"]
  by (simp add: unflattenObject_def num_eval prop_eval)

subsection \<open>\<open>walkThrough\<close>\<close>

text \<open>
  C1. The specification asks that a \<open>null\<close> inside a tree is emitted as a leaf, the pair
  (path, null), and that the traversal ends without a crash. The code tests
  \<open>typeof x[key] === 'object'\<close>, which holds for \<open>null\<close>, and so calls \<open>Object.keys(null)\<close>:
  on \<open>{a: null}\<close> the walker yields nothing and throws a TypeError.
\<close>

theorem walkThrough_null_throws:
  "walkThrough (Obj [(''a'', Null)]) = ([], Some TypeError)"
  by (simp add: walkThrough_def)

text \<open>
  C5. The flat mapping \<open>{a: null}\<close> maps a path to a scalar and nests to the tree
  \<open>{a: null}\<close>, which \<open>unflattenObject\<close> returns. Flattening that tree does not give the
  mapping back: the walker throws on the \<open>null\<close>, as in C1.
\<close>

theorem flatten_unflatten_null_throws:
  "unflattenObject (Obj [(''a'', Null)]) = Inr (Obj [(''a'', Null)])
   \<and> flatten (Obj [(''a'', Null)]) = Inl TypeError"
  by (simp add: unflattenObject_def num_eval prop_eval flatten_def walkThrough_def)

subsection \<open>\<open>stringifyCircularJSON\<close>\<close>

lemma seen_replacer_simps:
  "a \<in> seen \<Longrightarrow> seen_replacer seen k (HRef a) = (HUndefined, seen)"
  "a \<notin> seen \<Longrightarrow> seen_replacer seen k (HRef a) = (HRef a, insert a seen)"
  "seen_replacer seen k HUndefined = (HUndefined, seen)"
  "seen_replacer seen k HNull = (HNull, seen)"
  "seen_replacer seen k (HBool b) = (HBool b, seen)"
  "seen_replacer seen k (HNum i) = (HNum i, seen)"
  "seen_replacer seen k (HStr s) = (HStr s, seen)"
  by (simp_all add: seen_replacer_def)












subsection \<open>\<open>stringifyCircularJSON\<close> on trees\<close>

lemma array_length_gt: "(k, v) \<in> set ps \<Longrightarrow> is_index k \<Longrightarrow> nat_of_digits k < array_length ps"
  by (induction ps) (auto simp: array_length_def)

lemma array_length_le:
  "\<forall>k \<in> fst ` set ps. is_index k \<longrightarrow> nat_of_digits k < n \<Longrightarrow> array_length ps \<le> n"
  by (induction ps) (auto simp: array_length_def)

lemma array_length_contiguous:
  assumes "map fst ps = map string_of_nat [0..<length ps]" "length ps \<le> 4294967295"
  shows "array_length ps = length ps"
proof (cases "ps = []")
  case True
  then show ?thesis by (simp add: array_length_def)
next
  case False
  let ?n = "length ps"
  from False have n: "0 < ?n" by simp
  have keys: "fst (ps ! i) = string_of_nat i" if "i < ?n" for i
  proof -
    from that have "fst (ps ! i) = map fst ps ! i" by simp
    also from assms(1) that have "\<dots> = string_of_nat i" by simp
    finally show ?thesis .
  qed
  have "array_length ps \<le> ?n"
  proof (rule array_length_le, intro ballI impI)
    fix k assume "k \<in> fst ` set ps" "is_index k"
    then obtain i where "i < ?n" "k = fst (ps ! i)" by (auto simp: in_set_conv_nth)
    with keys show "nat_of_digits k < ?n" by (simp add: nat_of_digits_string_of_nat)
  qed
  moreover have "?n - 1 < array_length ps"
  proof -
    obtain k v where kv: "ps ! (?n - 1) = (k, v)" by (cases "ps ! (?n - 1)")
    from n have "ps ! (?n - 1) \<in> set ps" by simp
    with kv have m: "(k, v) \<in> set ps" by simp
    from n keys [of "?n - 1"] kv have k: "k = string_of_nat (?n - 1)" by simp
    from n assms(2) have "is_index (string_of_nat (?n - 1))"
      by (simp add: is_index_string_of_nat)
    with k have "is_index k" by simp
    with m have "nat_of_digits k < array_length ps" by (rule array_length_gt)
    with k show ?thesis by (simp add: nat_of_digits_string_of_nat)
  qed
  ultimately show ?thesis by simp
qed

lemma lookup_nth:
  "distinct (map fst ps) \<Longrightarrow> i < length ps \<Longrightarrow> lookup (fst (ps ! i)) ps = Some (snd (ps ! i))"
proof (induction ps arbitrary: i)
  case Nil
  then show ?case by simp
next
  case (Cons p ps)
  obtain k v where p: "p = (k, v)" by (cases p)
  show ?case
  proof (cases i)
    case 0
    with p show ?thesis by simp
  next
    case (Suc j)
    with Cons.prems have j: "j < length ps" by simp
    then have "fst (ps ! j) \<in> fst ` set ps" by simp
    with Cons.prems(1) p have "fst (ps ! j) \<noteq> k" by auto
    with Cons.IH [of j] Cons.prems(1) j Suc p show ?thesis by simp
  qed
qed

lemma array_slots_contiguous:
  assumes "map fst ps = map string_of_nat [0..<length ps]" "length ps \<le> 4294967295"
  shows "array_slots d ps = map snd ps"
proof -
  have "inj_on string_of_nat (set [0..<length ps])"
    by (rule inj_onI) (rule string_of_nat_inj)
  then have d: "distinct (map fst ps)" by (simp add: assms(1) distinct_map)
  have "(case lookup (string_of_nat i) ps of None \<Rightarrow> d | Some v \<Rightarrow> v) = snd (ps ! i)"
    if "i < length ps" for i
  proof -
    from that have "fst (ps ! i) = map fst ps ! i" by simp
    also from assms(1) that have "\<dots> = string_of_nat i" by simp
    finally have "fst (ps ! i) = string_of_nat i" .
    with lookup_nth [OF d that] show ?thesis by simp
  qed
  then have "array_slots d ps = map (\<lambda>i. snd (ps ! i)) [0..<length ps]"
    by (simp add: array_slots_def array_length_contiguous [OF assms])
  also have "\<dots> = map snd (map ((!) ps) [0..<length ps])" by simp
  also have "\<dots> = map snd ps" by (simp only: map_nth)
  finally show ?thesis .
qed

lemma extends_refl: "extends h h"
  by (simp add: extends_def)

lemma extends_append: "extends H (h @ ext) \<Longrightarrow> extends H h"
  by (auto simp: extends_def)

lemma extends_nth: "extends H h \<Longrightarrow> a < length h \<Longrightarrow> a < length H \<and> H ! a = h ! a"
  by (auto simp: extends_def nth_append)

lemma range_step:
  fixes seen :: "nat set"
  assumes "seen1 \<subseteq> seen \<union> {a..<b}" "seen \<inter> {a..<c} = {}" "a \<le> b"
  shows "seen1 \<inter> {b..<c} = {}"
proof -
  have "x \<notin> seen1" if "b \<le> x" "x < c" for x
  proof
    assume "x \<in> seen1"
    with assms(1) have "x \<in> seen \<or> x \<in> {a..<b}" by auto
    with that(1) have "x \<in> seen" by auto
    moreover from that assms(3) have "x \<in> {a..<c}" by auto
    ultimately show False using assms(2) by auto
  qed
  then show ?thesis by auto
qed

lemma range_join:
  fixes seen :: "nat set"
  assumes "seen1 \<subseteq> seen \<union> {a..<b}" "seen2 \<subseteq> seen1 \<union> {b..<c}" "a \<le> b" "b \<le> c"
  shows "seen2 \<subseteq> seen \<union> {a..<c}"
proof
  fix x assume "x \<in> seen2"
  with assms(2) have "x \<in> seen1 \<or> x \<in> {b..<c}" by auto
  then show "x \<in> seen \<union> {a..<c}"
  proof
    assume "x \<in> seen1"
    with assms(1) have "x \<in> seen \<or> x \<in> {a..<b}" by auto
    with assms(4) show ?thesis by auto
  next
    assume "x \<in> {b..<c}"
    with assms(3) show ?thesis by auto
  qed
qed

lemma alloc_extends:
  "alloc t h = (v, h') \<longrightarrow> (\<exists>ext. h' = h @ ext)"
  "alloc_props ps h = (qs, h') \<longrightarrow> (\<exists>ext. h' = h @ ext) \<and> map fst qs = map fst ps"
proof (induction t h and ps h arbitrary: v h' and qs h' rule: alloc_alloc_props.induct)
  case (6 ps h)
  show ?case
  proof
    assume "alloc (Obj ps) h = (v, h')"
    then obtain qs h1 where ap: "alloc_props ps h = (qs, h1)" and h': "h' = h1 @ [HObj qs]"
      by (auto split: prod.splits)
    from 6 ap obtain e1 where "h1 = h @ e1" by blast
    with h' show "\<exists>ext. h' = h @ ext" by simp
  qed
next
  case (7 ps h)
  show ?case
  proof
    assume "alloc (Arr ps) h = (v, h')"
    then obtain qs h1 where ap: "alloc_props ps h = (qs, h1)"
      and h': "h' = h1 @ [HArr (array_slots HUndefined qs)]"
      by (auto split: prod.splits)
    from 7 ap obtain e1 where "h1 = h @ e1" by blast
    with h' show "\<exists>ext. h' = h @ ext" by simp
  qed
next
  case (9 k v ps h)
  show ?case
  proof
    assume a: "alloc_props ((k, v) # ps) h = (qs, h')"
    then obtain x h1 rs where 1: "alloc v h = (x, h1)" and 2: "alloc_props ps h1 = (rs, h')"
      and q: "qs = (k, x) # rs"
      by (auto split: prod.splits)
    from 9(1) 1 obtain e1 where e1: "h1 = h @ e1" by blast
    from 9(2) [OF 1 [symmetric]] 2 obtain e2 where e2: "h' = h1 @ e2" and ks: "map fst rs = map fst ps"
      by blast
    from e1 e2 q ks show "(\<exists>ext. h' = h @ ext) \<and> map fst qs = map fst ((k, v) # ps)" by simp
  qed
qed auto

lemma alloc_length: "alloc t h = (v, h') \<Longrightarrow> length h \<le> length h'"
  using alloc_extends(1) [of t h v h'] by auto

lemma alloc_props_length: "alloc_props ps h = (qs, h') \<Longrightarrow> length h \<le> length h'"
  using alloc_extends(2) [of ps h qs h'] by auto

lemma alloc_props_keys: "alloc_props ps h = (qs, h') \<Longrightarrow> map fst qs = map fst ps"
  using alloc_extends(2) [of ps h qs h'] by auto

lemma alloc_extends_trans: "alloc t h = (v, h') \<Longrightarrow> extends H h' \<Longrightarrow> extends H h"
  using alloc_extends(1) [of t h v h'] by (auto simp: extends_def)

lemma alloc_props_extends_trans: "alloc_props ps h = (qs, h') \<Longrightarrow> extends H h' \<Longrightarrow> extends H h"
  using alloc_extends(2) [of ps h qs h'] by (auto simp: extends_def)

lemma json_members_keys: "map fst (json_members ps) = map fst ps"
  by (induction ps) auto

lemma json_members_length: "length (json_members ps) = length ps"
  by (induction ps) auto

text \<open>
  The serializer on an allocated tree: when none of the addresses of the tree is seen
  yet, the text is the standard text of the tree, and only addresses of the tree are
  marked seen, its root among them.
\<close>

lemma serialize_tree:
  "\<forall>v h' stack seen n key. alloc t h = (v, h') \<longrightarrow> contiguous t \<longrightarrow> extends H h' \<longrightarrow>
     seen \<inter> {length h..<length h'} = {} \<longrightarrow> set stack \<subseteq> seen \<longrightarrow> depth t < n \<longrightarrow>
     tree_result (root_of v) (length h) (length h') seen
       (serialize_property n seen_replacer H stack seen key v) (json_text t)"
  "\<forall>qs h' stack seen n. alloc_props ps h = (qs, h') \<longrightarrow> contiguous_props ps \<longrightarrow> extends H h' \<longrightarrow>
     seen \<inter> {length h..<length h'} = {} \<longrightarrow> set stack \<subseteq> seen \<longrightarrow> depth_props ps < n \<longrightarrow>
     tree_result {} (length h) (length h') seen
       (serialize_members (serialize_property n seen_replacer H stack) seen qs)
       (member_texts (json_members ps))
     \<and> (\<forall>i. tree_result {} (length h) (length h') seen
          (serialize_elements (serialize_property n seen_replacer H stack) seen i (map snd qs))
          (map element_text (map snd (json_members ps))))"
proof (induction t h and ps h rule: alloc_alloc_props.induct)
  case (1 h)
  show ?case
  proof (intro allI impI)
    fix v h' stack seen n key
    assume "alloc Undefined h = (v, h')" "depth Undefined < n"
    then show "tree_result (root_of v) (length h) (length h') seen
       (serialize_property n seen_replacer H stack seen key v) (json_text Undefined)"
      by (cases n) (auto simp: tree_result_def seen_replacer_simps)
  qed
next
  case (2 h)
  show ?case
  proof (intro allI impI)
    fix v h' stack seen n key
    assume "alloc Null h = (v, h')" "depth Null < n"
    then show "tree_result (root_of v) (length h) (length h') seen
       (serialize_property n seen_replacer H stack seen key v) (json_text Null)"
      by (cases n) (auto simp: tree_result_def seen_replacer_simps)
  qed
next
  case (3 b h)
  show ?case
  proof (intro allI impI)
    fix v h' stack seen n key
    assume "alloc (Bool b) h = (v, h')" "depth (Bool b) < n"
    then show "tree_result (root_of v) (length h) (length h') seen
       (serialize_property n seen_replacer H stack seen key v) (json_text (Bool b))"
      by (cases n) (auto simp: tree_result_def seen_replacer_simps)
  qed
next
  case (4 i h)
  show ?case
  proof (intro allI impI)
    fix v h' stack seen n key
    assume "alloc (Num i) h = (v, h')" "depth (Num i) < n"
    then show "tree_result (root_of v) (length h) (length h') seen
       (serialize_property n seen_replacer H stack seen key v) (json_text (Num i))"
      by (cases n) (auto simp: tree_result_def seen_replacer_simps)
  qed
next
  case (5 s h)
  show ?case
  proof (intro allI impI)
    fix v h' stack seen n key
    assume "alloc (Str s) h = (v, h')" "depth (Str s) < n"
    then show "tree_result (root_of v) (length h) (length h') seen
       (serialize_property n seen_replacer H stack seen key v) (json_text (Str s))"
      by (cases n) (auto simp: tree_result_def seen_replacer_simps)
  qed
next
  case (6 ps h)
  show ?case
  proof (intro allI impI)
    fix v h' stack seen n key
    assume al: "alloc (Obj ps) h = (v, h')" and c: "contiguous (Obj ps)" and e: "extends H h'"
      and d: "seen \<inter> {length h..<length h'} = {}" and s: "set stack \<subseteq> seen"
      and n: "depth (Obj ps) < n"
    from al obtain qs h1 where ap: "alloc_props ps h = (qs, h1)"
      and v: "v = HRef (length h1)" and h': "h' = h1 @ [HObj qs]"
      by (auto split: prod.splits)
    from n obtain m where m: "n = Suc m" "depth_props ps < m" by (cases n) auto
    let ?a = "length h1"
    from ap have le: "length h \<le> ?a" by (rule alloc_props_length)
    with d h' have ns: "?a \<notin> seen" by auto
    with s have nst: "?a \<notin> set stack" by auto
    from e h' have ha: "?a < length H \<and> H ! ?a = HObj qs"
      using extends_nth [of H h' ?a] by simp
    from e h' have e1: "extends H h1" using extends_append by simp
    from d h' ns have d1: "insert ?a seen \<inter> {length h..<?a} = {}" by auto
    from s have s1: "set (?a # stack) \<subseteq> insert ?a seen" by auto
    from 6 ap c e1 d1 s1 m(2)
    have "tree_result {} (length h) ?a (insert ?a seen)
       (serialize_members (serialize_property m seen_replacer H (?a # stack)) (insert ?a seen) qs)
       (member_texts (json_members ps))"
      by simp
    then obtain seen' where r: "serialize_members (serialize_property m seen_replacer H (?a # stack))
        (insert ?a seen) qs = Some (Inr (member_texts (json_members ps), seen'))"
      and s': "insert ?a seen \<subseteq> seen'" "seen' \<subseteq> insert ?a seen \<union> {length h..<?a}"
      by (auto simp: tree_result_def)
    from r ns nst ha m(1) v
    have "serialize_property n seen_replacer H stack seen key v
        = Some (Inr (json_text (Obj ps), seen'))"
      by (simp add: seen_replacer_simps)
    moreover from s' have "seen \<subseteq> seen'" by auto
    moreover from s' le h' have "seen' \<subseteq> seen \<union> {length h..<length h'}" by auto
    moreover from s' v have "root_of v \<subseteq> seen'" by simp
    ultimately show "tree_result (root_of v) (length h) (length h') seen
       (serialize_property n seen_replacer H stack seen key v) (json_text (Obj ps))"
      by (simp add: tree_result_def)
  qed
next
  case (7 ps h)
  show ?case
  proof (intro allI impI)
    fix v h' stack seen n key
    assume al: "alloc (Arr ps) h = (v, h')" and c: "contiguous (Arr ps)" and e: "extends H h'"
      and d: "seen \<inter> {length h..<length h'} = {}" and s: "set stack \<subseteq> seen"
      and n: "depth (Arr ps) < n"
    from al obtain qs h1 where ap: "alloc_props ps h = (qs, h1)"
      and v: "v = HRef (length h1)" and h': "h' = h1 @ [HArr (array_slots HUndefined qs)]"
      by (auto split: prod.splits)
    from ap have ks: "map fst qs = map fst ps" by (rule alloc_props_keys)
    then have "length (map fst qs) = length (map fst ps)" by simp
    then have lq: "length qs = length ps" by simp
    from c ks lq have "array_slots HUndefined qs = map snd qs"
      by (intro array_slots_contiguous) auto
    with h' have h'': "h' = h1 @ [HArr (map snd qs)]" by simp
    from c have jt: "array_slots None (json_members ps) = map snd (json_members ps)"
      by (intro array_slots_contiguous) (auto simp: json_members_keys json_members_length)
    from n obtain m where m: "n = Suc m" "depth_props ps < m" by (cases n) auto
    let ?a = "length h1"
    from ap have le: "length h \<le> ?a" by (rule alloc_props_length)
    with d h'' have ns: "?a \<notin> seen" by auto
    with s have nst: "?a \<notin> set stack" by auto
    from e h'' have ha: "?a < length H \<and> H ! ?a = HArr (map snd qs)"
      using extends_nth [of H h' ?a] by simp
    from e h'' have e1: "extends H h1" using extends_append by simp
    from d h'' ns have d1: "insert ?a seen \<inter> {length h..<?a} = {}" by auto
    from s have s1: "set (?a # stack) \<subseteq> insert ?a seen" by auto
    from c have cp: "contiguous_props ps" by simp
    from 7 ap cp e1 d1 s1 m(2)
    have "tree_result {} (length h) ?a (insert ?a seen)
       (serialize_elements (serialize_property m seen_replacer H (?a # stack)) (insert ?a seen) 0
          (map snd qs))
       (map element_text (map snd (json_members ps)))"
      by simp
    then obtain seen' where r: "serialize_elements (serialize_property m seen_replacer H (?a # stack))
        (insert ?a seen) 0 (map snd qs)
          = Some (Inr (map element_text (map snd (json_members ps)), seen'))"
      and s': "insert ?a seen \<subseteq> seen'" "seen' \<subseteq> insert ?a seen \<union> {length h..<?a}"
      by (auto simp: tree_result_def)
    from r ns nst ha m(1) v jt
    have "serialize_property n seen_replacer H stack seen key v
        = Some (Inr (json_text (Arr ps), seen'))"
      by (simp add: seen_replacer_simps)
    moreover from s' have "seen \<subseteq> seen'" by auto
    moreover from s' le h'' have "seen' \<subseteq> seen \<union> {length h..<length h'}" by auto
    moreover from s' v have "root_of v \<subseteq> seen'" by simp
    ultimately show "tree_result (root_of v) (length h) (length h') seen
       (serialize_property n seen_replacer H stack seen key v) (json_text (Arr ps))"
      by (simp add: tree_result_def)
  qed
next
  case (8 h)
  show ?case by (auto simp: tree_result_def)
next
  case (9 k v ps h)
  show ?case
  proof (intro allI impI)
    fix qs h' stack seen n
    assume al: "alloc_props ((k, v) # ps) h = (qs, h')" and c: "contiguous_props ((k, v) # ps)"
      and e: "extends H h'" and d: "seen \<inter> {length h..<length h'} = {}"
      and s: "set stack \<subseteq> seen" and n: "depth_props ((k, v) # ps) < n"
    from al obtain x h1 rs where 1: "alloc v h = (x, h1)" and 2: "alloc_props ps h1 = (rs, h')"
      and q: "qs = (k, x) # rs"
      by (auto split: prod.splits)
    let ?f = "serialize_property n seen_replacer H stack"
    from 1 have l1: "length h \<le> length h1" by (rule alloc_length)
    from 2 have l2: "length h1 \<le> length h'" by (rule alloc_props_length)
    from 2 e have e1: "extends H h1" by (rule alloc_props_extends_trans)
    from d l2 have d1: "seen \<inter> {length h..<length h1} = {}" by auto
    from n have nv: "depth v < n" and np: "depth_props ps < n" by simp_all
    from c have cv: "contiguous v" and cp: "contiguous_props ps" by simp_all
    have first: "tree_result (root_of x) (length h) (length h1) seen (?f seen key x) (json_text v)" for key
      using 9(1) 1 cv e1 d1 s nv by simp
    have members: "tree_result {} (length h) (length h') seen
       (serialize_members ?f seen qs) (member_texts (json_members ((k, v) # ps)))"
    proof -
      from first [of k] obtain seen1 where f1: "?f seen k x = Some (Inr (json_text v, seen1))"
        and s1: "seen \<subseteq> seen1" "seen1 \<subseteq> seen \<union> {length h..<length h1}"
        by (auto simp: tree_result_def)
      from s1(2) d l1 have d2: "seen1 \<inter> {length h1..<length h'} = {}" by (rule range_step)
      from s s1 have st: "set stack \<subseteq> seen1" by auto
      from 9(2) [OF 1 [symmetric]] 2 cp e d2 st np
      have "tree_result {} (length h1) (length h') seen1
         (serialize_members ?f seen1 rs) (member_texts (json_members ps))"
        by simp
      then obtain seen2 where f2: "serialize_members ?f seen1 rs
          = Some (Inr (member_texts (json_members ps), seen2))"
        and s2: "seen1 \<subseteq> seen2" "seen2 \<subseteq> seen1 \<union> {length h1..<length h'}"
        by (auto simp: tree_result_def)
      from f1 f2 q have "serialize_members ?f seen qs
          = Some (Inr (member_texts (json_members ((k, v) # ps)), seen2))"
        by (cases "json_text v") simp_all
      moreover from s1 s2 have "seen \<subseteq> seen2" by auto
      moreover from s1(2) s2(2) l1 l2 have "seen2 \<subseteq> seen \<union> {length h..<length h'}"
        by (rule range_join)
      ultimately show ?thesis by (simp add: tree_result_def)
    qed
    have elements: "tree_result {} (length h) (length h') seen
          (serialize_elements ?f seen i (map snd qs))
          (map element_text (map snd (json_members ((k, v) # ps))))" for i
    proof -
      from first [of "string_of_nat i"]
      obtain seen1 where f1: "?f seen (string_of_nat i) x = Some (Inr (json_text v, seen1))"
        and s1: "seen \<subseteq> seen1" "seen1 \<subseteq> seen \<union> {length h..<length h1}"
        by (auto simp: tree_result_def)
      from s1(2) d l1 have d2: "seen1 \<inter> {length h1..<length h'} = {}" by (rule range_step)
      from s s1 have st: "set stack \<subseteq> seen1" by auto
      from 9(2) [OF 1 [symmetric]] 2 cp e d2 st np
      have "tree_result {} (length h1) (length h') seen1
         (serialize_elements ?f seen1 (Suc i) (map snd rs))
         (map element_text (map snd (json_members ps)))"
        by simp
      then obtain seen2 where f2: "serialize_elements ?f seen1 (Suc i) (map snd rs)
          = Some (Inr (map element_text (map snd (json_members ps)), seen2))"
        and s2: "seen1 \<subseteq> seen2" "seen2 \<subseteq> seen1 \<union> {length h1..<length h'}"
        by (auto simp: tree_result_def)
      from f1 f2 q have "serialize_elements ?f seen i (map snd qs)
          = Some (Inr (map element_text (map snd (json_members ((k, v) # ps))), seen2))"
        by (simp add: element_text_def)
      moreover from s1 s2 have "seen \<subseteq> seen2" by auto
      moreover from s1(2) s2(2) l1 l2 have "seen2 \<subseteq> seen \<union> {length h..<length h'}"
        by (rule range_join)
      ultimately show ?thesis by (simp add: tree_result_def)
    qed
    from members elements show "tree_result {} (length h) (length h') seen
       (serialize_members ?f seen qs) (member_texts (json_members ((k, v) # ps)))
     \<and> (\<forall>i. tree_result {} (length h) (length h') seen
          (serialize_elements ?f seen i (map snd qs))
          (map element_text (map snd (json_members ((k, v) # ps)))))"
      by blast
  qed
qed

lemma alloc_serialize:
  assumes "contiguous t" "alloc t h0 = (v, h)" "extends H h" "depth t < n"
    "seen \<inter> {length h0..<length h} = {}" "set stack \<subseteq> seen"
  shows "\<exists>seen'. serialize_property n seen_replacer H stack seen key v
           = Some (Inr (json_text t, seen'))
         \<and> seen \<subseteq> seen' \<and> root_of v \<subseteq> seen'"
proof -
  from serialize_tree(1) [of t h0 H] assms
  have "tree_result (root_of v) (length h0) (length h) seen
       (serialize_property n seen_replacer H stack seen key v) (json_text t)"
    by blast
  then show ?thesis by (auto simp: tree_result_def)
qed

lemma alloc_container: "is_container t \<Longrightarrow> alloc t h0 = (v, h) \<Longrightarrow>
  \<exists>a s. v = HRef a \<and> a < length h \<and> json_text t = Some s \<and> 0 < depth t"
  by (cases t) (auto split: prod.splits)

lemma shared_in_mapping:
  assumes "contiguous t" "is_container t" "alloc t [] = (v, h)" "depth t < fuel"
  shows "\<exists>s. json_text t = Some s
     \<and> stringifyCircularJSON (Suc fuel) (h @ [HObj [(k1, v), (k2, v)]]) (HRef (length h))
         = Some (Inr (Some (''{'' @ quote k1 @ '':'' @ s @ ''}'')))"
proof -
  let ?H = "h @ [HObj [(k1, v), (k2, v)]]"
  let ?p = "length h"
  from alloc_container [OF assms(2,3)] obtain a s where v: "v = HRef a" and s: "json_text t = Some s"
    and d: "0 < depth t" by blast
  from d assms(4) obtain m where m: "fuel = Suc m" by (cases fuel) auto
  have e: "extends ?H h" by (simp add: extends_def)
  from alloc_serialize [OF assms(1,3) e assms(4), of "{?p}" "[?p]" k1]
  obtain seen1 where 1: "serialize_property fuel seen_replacer ?H [?p] {?p} k1 v
      = Some (Inr (json_text t, seen1))" and r: "root_of v \<subseteq> seen1"
    by auto
  from r v have a: "a \<in> seen1" by simp
  from a m v have 2: "serialize_members (serialize_property fuel seen_replacer ?H [?p]) seen1 [(k2, v)]
      = Some (Inr ([], seen1))"
    by (simp add: seen_replacer_simps)
  from 1 2 s have "serialize_members (serialize_property fuel seen_replacer ?H [?p]) {?p}
      [(k1, v), (k2, v)] = Some (Inr ([quote k1 @ '':'' @ s], seen1))"
    by simp
  then have "stringifyCircularJSON (Suc fuel) ?H (HRef ?p)
      = Some (Inr (Some (''{'' @ quote k1 @ '':'' @ s @ ''}'')))"
    by (simp add: stringifyCircularJSON_def JSON_stringify_def seen_replacer_simps)
  with s show ?thesis by blast
qed

lemma shared_in_sequence:
  assumes "contiguous t" "is_container t" "alloc t [] = (v, h)" "depth t < fuel"
  shows "\<exists>s. json_text t = Some s
     \<and> stringifyCircularJSON (Suc fuel) (h @ [HArr [v, v]]) (HRef (length h))
         = Some (Inr (Some (''['' @ s @ '',null]'')))"
proof -
  let ?H = "h @ [HArr [v, v]]"
  let ?p = "length h"
  from alloc_container [OF assms(2,3)] obtain a s where v: "v = HRef a" and s: "json_text t = Some s"
    and d: "0 < depth t" by blast
  from d assms(4) obtain m where m: "fuel = Suc m" by (cases fuel) auto
  have e: "extends ?H h" by (simp add: extends_def)
  from alloc_serialize [OF assms(1,3) e assms(4), of "{?p}" "[?p]" "string_of_nat 0"]
  obtain seen1 where 1: "serialize_property fuel seen_replacer ?H [?p] {?p} (string_of_nat 0) v
      = Some (Inr (json_text t, seen1))" and r: "root_of v \<subseteq> seen1"
    by auto
  from r v have a: "a \<in> seen1" by simp
  from a m v have 2: "serialize_elements (serialize_property fuel seen_replacer ?H [?p]) seen1 (Suc 0) [v]
      = Some (Inr ([''null''], seen1))"
    by (simp add: seen_replacer_simps)
  from 1 2 s have "serialize_elements (serialize_property fuel seen_replacer ?H [?p]) {?p} 0 [v, v]
      = Some (Inr ([s, ''null''], seen1))"
    by simp
  then have "stringifyCircularJSON (Suc fuel) ?H (HRef ?p)
      = Some (Inr (Some (''['' @ s @ '',null]'')))"
    by (simp add: stringifyCircularJSON_def JSON_stringify_def seen_replacer_simps)
  with s show ?thesis by blast
qed

text \<open>
  \<open>JSON.stringify\<close> without a replacer on an allocated tree: the text is the standard text
  of the tree.
\<close>

lemma serialize_tree_plain:
  "\<forall>v h' stack n key. alloc t h = (v, h') \<longrightarrow> contiguous t \<longrightarrow> extends H h' \<longrightarrow>
     set stack \<inter> {length h..<length h'} = {} \<longrightarrow> depth t < n \<longrightarrow>
     serialize_property n no_replacer H stack () key v = Some (Inr (json_text t, ()))"
  "\<forall>qs h' stack n. alloc_props ps h = (qs, h') \<longrightarrow> contiguous_props ps \<longrightarrow> extends H h' \<longrightarrow>
     set stack \<inter> {length h..<length h'} = {} \<longrightarrow> depth_props ps < n \<longrightarrow>
     serialize_members (serialize_property n no_replacer H stack) () qs
       = Some (Inr (member_texts (json_members ps), ()))
     \<and> (\<forall>i. serialize_elements (serialize_property n no_replacer H stack) () i (map snd qs)
          = Some (Inr (map element_text (map snd (json_members ps)), ())))"
proof (induction t h and ps h rule: alloc_alloc_props.induct)
  case (1 h)
  show ?case
  proof (intro allI impI)
    fix v h' stack n key
    assume "alloc Undefined h = (v, h')" "depth Undefined < n"
    then show "serialize_property n no_replacer H stack () key v = Some (Inr (json_text Undefined, ()))"
      by (cases n) (auto simp: no_replacer_def)
  qed
next
  case (2 h)
  show ?case
  proof (intro allI impI)
    fix v h' stack n key
    assume "alloc Null h = (v, h')" "depth Null < n"
    then show "serialize_property n no_replacer H stack () key v = Some (Inr (json_text Null, ()))"
      by (cases n) (auto simp: no_replacer_def)
  qed
next
  case (3 b h)
  show ?case
  proof (intro allI impI)
    fix v h' stack n key
    assume "alloc (Bool b) h = (v, h')" "depth (Bool b) < n"
    then show "serialize_property n no_replacer H stack () key v = Some (Inr (json_text (Bool b), ()))"
      by (cases n) (auto simp: no_replacer_def)
  qed
next
  case (4 i h)
  show ?case
  proof (intro allI impI)
    fix v h' stack n key
    assume "alloc (Num i) h = (v, h')" "depth (Num i) < n"
    then show "serialize_property n no_replacer H stack () key v = Some (Inr (json_text (Num i), ()))"
      by (cases n) (auto simp: no_replacer_def)
  qed
next
  case (5 s h)
  show ?case
  proof (intro allI impI)
    fix v h' stack n key
    assume "alloc (Str s) h = (v, h')" "depth (Str s) < n"
    then show "serialize_property n no_replacer H stack () key v = Some (Inr (json_text (Str s), ()))"
      by (cases n) (auto simp: no_replacer_def)
  qed
next
  case (6 ps h)
  show ?case
  proof (intro allI impI)
    fix v h' stack n key
    assume al: "alloc (Obj ps) h = (v, h')" and c: "contiguous (Obj ps)" and e: "extends H h'"
      and d: "set stack \<inter> {length h..<length h'} = {}" and n: "depth (Obj ps) < n"
    from al obtain qs h1 where ap: "alloc_props ps h = (qs, h1)"
      and v: "v = HRef (length h1)" and h': "h' = h1 @ [HObj qs]"
      by (auto split: prod.splits)
    from n obtain m where m: "n = Suc m" "depth_props ps < m" by (cases n) auto
    let ?a = "length h1"
    from ap have le: "length h \<le> ?a" by (rule alloc_props_length)
    with d h' have nst: "?a \<notin> set stack" by auto
    from e h' have ha: "?a < length H \<and> H ! ?a = HObj qs"
      using extends_nth [of H h' ?a] by simp
    from e h' have e1: "extends H h1" using extends_append by simp
    from d h' nst le have d1: "set (?a # stack) \<inter> {length h..<?a} = {}" by auto
    from 6 ap c e1 d1 m(2)
    have r: "serialize_members (serialize_property m no_replacer H (?a # stack)) () qs
        = Some (Inr (member_texts (json_members ps), ()))"
      by simp
    from r nst ha m(1) v
    show "serialize_property n no_replacer H stack () key v = Some (Inr (json_text (Obj ps), ()))"
      by (simp add: no_replacer_def)
  qed
next
  case (7 ps h)
  show ?case
  proof (intro allI impI)
    fix v h' stack n key
    assume al: "alloc (Arr ps) h = (v, h')" and c: "contiguous (Arr ps)" and e: "extends H h'"
      and d: "set stack \<inter> {length h..<length h'} = {}" and n: "depth (Arr ps) < n"
    from al obtain qs h1 where ap: "alloc_props ps h = (qs, h1)"
      and v: "v = HRef (length h1)" and h': "h' = h1 @ [HArr (array_slots HUndefined qs)]"
      by (auto split: prod.splits)
    from ap have ks: "map fst qs = map fst ps" by (rule alloc_props_keys)
    then have "length (map fst qs) = length (map fst ps)" by simp
    then have lq: "length qs = length ps" by simp
    from c ks lq have "array_slots HUndefined qs = map snd qs"
      by (intro array_slots_contiguous) auto
    with h' have h'': "h' = h1 @ [HArr (map snd qs)]" by simp
    from c have jt: "array_slots None (json_members ps) = map snd (json_members ps)"
      by (intro array_slots_contiguous) (auto simp: json_members_keys json_members_length)
    from n obtain m where m: "n = Suc m" "depth_props ps < m" by (cases n) auto
    let ?a = "length h1"
    from ap have le: "length h \<le> ?a" by (rule alloc_props_length)
    with d h'' have nst: "?a \<notin> set stack" by auto
    from e h'' have ha: "?a < length H \<and> H ! ?a = HArr (map snd qs)"
      using extends_nth [of H h' ?a] by simp
    from e h'' have e1: "extends H h1" using extends_append by simp
    from d h'' nst le have d1: "set (?a # stack) \<inter> {length h..<?a} = {}" by auto
    from c have cp: "contiguous_props ps" by simp
    from 7 ap cp e1 d1 m(2)
    have r: "serialize_elements (serialize_property m no_replacer H (?a # stack)) () 0 (map snd qs)
          = Some (Inr (map element_text (map snd (json_members ps)), ()))"
      by simp
    from r nst ha m(1) v jt
    show "serialize_property n no_replacer H stack () key v = Some (Inr (json_text (Arr ps), ()))"
      by (simp add: no_replacer_def)
  qed
next
  case (8 h)
  show ?case by auto
next
  case (9 k v ps h)
  show ?case
  proof (intro allI impI)
    fix qs h' stack n
    assume al: "alloc_props ((k, v) # ps) h = (qs, h')" and c: "contiguous_props ((k, v) # ps)"
      and e: "extends H h'" and d: "set stack \<inter> {length h..<length h'} = {}"
      and n: "depth_props ((k, v) # ps) < n"
    from al obtain x h1 rs where 1: "alloc v h = (x, h1)" and 2: "alloc_props ps h1 = (rs, h')"
      and q: "qs = (k, x) # rs"
      by (auto split: prod.splits)
    let ?f = "serialize_property n no_replacer H stack"
    from 1 have l1: "length h \<le> length h1" by (rule alloc_length)
    from 2 have l2: "length h1 \<le> length h'" by (rule alloc_props_length)
    from 2 e have e1: "extends H h1" by (rule alloc_props_extends_trans)
    from d l2 have d1: "set stack \<inter> {length h..<length h1} = {}" by auto
    from d l1 have d2: "set stack \<inter> {length h1..<length h'} = {}" by auto
    from n have nv: "depth v < n" and np: "depth_props ps < n" by simp_all
    from c have cv: "contiguous v" and cp: "contiguous_props ps" by simp_all
    have first: "?f () key x = Some (Inr (json_text v, ()))" for key
      using 9(1) 1 cv e1 d1 nv by simp
    from 9(2) [OF 1 [symmetric]] 2 cp e d2 np
    have rest: "serialize_members ?f () rs = Some (Inr (member_texts (json_members ps), ()))"
      "serialize_elements ?f () i (map snd rs)
          = Some (Inr (map element_text (map snd (json_members ps)), ()))" for i
      by simp_all
    from first [of k] rest(1) q
    have members: "serialize_members ?f () qs
        = Some (Inr (member_texts (json_members ((k, v) # ps)), ()))"
      by (cases "json_text v") simp_all
    have elements: "serialize_elements ?f () i (map snd qs)
          = Some (Inr (map element_text (map snd (json_members ((k, v) # ps))), ()))" for i
      using first [of "string_of_nat i"] rest(2) [of "Suc i"] q by (simp add: element_text_def)
    from members elements
    show "serialize_members ?f () qs = Some (Inr (member_texts (json_members ((k, v) # ps)), ()))
     \<and> (\<forall>i. serialize_elements ?f () i (map snd qs)
          = Some (Inr (map element_text (map snd (json_members ((k, v) # ps))), ())))"
      by blast
  qed
qed

lemma JSON_stringify_tree:
  assumes "contiguous t" "alloc t [] = (v, h)" "depth t < fuel"
  shows "JSON_stringify fuel no_replacer () h v = Some (Inr (json_text t))"
proof -
  from serialize_tree_plain(1) [of t "[]" h] assms
  have "serialize_property fuel no_replacer h [] () [] v = Some (Inr (json_text t, ()))"
    by (simp add: extends_refl)
  then show ?thesis by (simp add: JSON_stringify_def)
qed

text \<open>
  C9, as the code has it. For a tree in which no container occurs twice, the text of
  \<open>stringifyCircularJSON\<close> is the standard serialization text of the tree, and it is what
  \<open>JSON.stringify\<close> without a replacer returns. When the same container stands at two
  sibling positions, the first occurrence is kept; the second is left out when the parent
  is a Mapping and is written \<open>null\<close> when the parent is a Sequence.
\<close>

theorem stringifyCircularJSON_tree:
  "(contiguous t \<and> alloc t [] = (v, h) \<and> depth t < fuel \<longrightarrow>
      stringifyCircularJSON fuel h v = Some (Inr (json_text t))
      \<and> stringifyCircularJSON fuel h v = JSON_stringify fuel no_replacer () h v)
   \<and> (contiguous t \<and> is_container t \<and> alloc t [] = (v, h) \<and> depth t < fuel \<longrightarrow>
      (\<exists>s. json_text t = Some s
        \<and> stringifyCircularJSON (Suc fuel) (h @ [HObj [(k1, v), (k2, v)]]) (HRef (length h))
            = Some (Inr (Some (''{'' @ quote k1 @ '':'' @ s @ ''}'')))
        \<and> stringifyCircularJSON (Suc fuel) (h @ [HArr [v, v]]) (HRef (length h))
            = Some (Inr (Some (''['' @ s @ '',null]'')))))"
proof -
  have 1: "stringifyCircularJSON fuel h v = Some (Inr (json_text t))"
    if "contiguous t" "alloc t [] = (v, h)" "depth t < fuel"
  proof -
    from alloc_serialize [OF that(1,2) extends_refl that(3), of "{}" "[]" "[]"]
    show ?thesis by (auto simp: stringifyCircularJSON_def JSON_stringify_def)
  qed
  have 2: "\<exists>s. json_text t = Some s
        \<and> stringifyCircularJSON (Suc fuel) (h @ [HObj [(k1, v), (k2, v)]]) (HRef (length h))
            = Some (Inr (Some (''{'' @ quote k1 @ '':'' @ s @ ''}'')))
        \<and> stringifyCircularJSON (Suc fuel) (h @ [HArr [v, v]]) (HRef (length h))
            = Some (Inr (Some (''['' @ s @ '',null]'')))"
    if "contiguous t" "is_container t" "alloc t [] = (v, h)" "depth t < fuel"
    using shared_in_mapping [OF that, of k1 k2] shared_in_sequence [OF that] by auto
  have 3: "stringifyCircularJSON fuel h v = JSON_stringify fuel no_replacer () h v"
    if "contiguous t" "alloc t [] = (v, h)" "depth t < fuel"
    using 1 [OF that] JSON_stringify_tree [OF that] by simp
  from 1 2 3 show ?thesis by blast
qed

theorem stringifyCircularJSON_tree_witness:
  \<open>contiguous (Obj [(''x'', Arr [(''0'', Num 1), (''1'', Null)])])
   \<and> is_container (Obj [(''x'', Arr [(''0'', Num 1), (''1'', Null)])])
   \<and> alloc (Obj [(''x'', Arr [(''0'', Num 1), (''1'', Null)])]) []
       = (HRef 1, [HArr [HNum 1, HNull], HObj [(''x'', HRef 0)]])
   \<and> json_text (Obj [(''x'', Arr [(''0'', Num 1), (''1'', Null)])]) = Some ''{"x":[1,null]}''
   \<and> stringifyCircularJSON (Suc (Suc (Suc 0))) [HArr [HNum 1, HNull], HObj [(''x'', HRef 0)]] (HRef 1)
       = Some (Inr (Some ''{"x":[1,null]}''))
   \<and> JSON_stringify (Suc (Suc (Suc 0))) no_replacer () [HArr [HNum 1, HNull], HObj [(''x'', HRef 0)]] (HRef 1)
       = Some (Inr (Some ''{"x":[1,null]}''))
   \<and> stringifyCircularJSON (Suc (Suc (Suc (Suc 0))))
        [HArr [HNum 1, HNull], HObj [(''x'', HRef 0)], HObj [(''a'', HRef 1), (''b'', HRef 1)]] (HRef 2)
       = Some (Inr (Some ''{"a":{"x":[1,null]}}''))
   \<and> stringifyCircularJSON (Suc (Suc (Suc (Suc 0))))
        [HArr [HNum 1, HNull], HObj [(''x'', HRef 0)], HArr [HRef 1, HRef 1]] (HRef 2)
       = Some (Inr (Some ''[{"x":[1,null]},null]''))\<close>
  using stringifyCircularJSON_tree [of "Obj [(''x'', Arr [(''0'', Num 1), (''1'', Null)])]" "HRef 1"
      "[HArr [HNum 1, HNull], HObj [(''x'', HRef 0)]]" "Suc (Suc (Suc 0))" "''a''" "''b''"]
  by (simp add: array_slots_def array_length_def lookup.simps prop_eval element_text_def json_eval)

text \<open>
  The claim says the second occurrence is omitted at any sibling position. For
  \<open>s = {x: 1}\<close> the text of \<open>[s, s]\<close> is \<open>[{"x":1},null]\<close>, not \<open>[{"x":1}]\<close>; without the
  replacer it is \<open>[{"x":1},{"x":1}]\<close>.
\<close>

theorem stringifyCircularJSON_shared_element_null:
  \<open>stringifyCircularJSON (Suc (Suc (Suc 0))) [HObj [(''x'', HNum 1)], HArr [HRef 0, HRef 0]] (HRef 1)
     = Some (Inr (Some ''[{"x":1},null]''))
   \<and> JSON_stringify (Suc (Suc (Suc 0))) no_replacer () [HObj [(''x'', HNum 1)], HArr [HRef 0, HRef 0]] (HRef 1)
     = Some (Inr (Some ''[{"x":1},{"x":1}]''))
   \<and> stringifyCircularJSON (Suc (Suc (Suc 0))) [HObj [(''x'', HNum 1)], HArr [HRef 0, HRef 0]] (HRef 1)
     \<noteq> Some (Inr (Some ''[{"x":1}]''))\<close>
  by (simp add: json_eval)

end
